theory Spec2Isabelle
  imports Main "HOL-Library.Word" "HOL-Library.Signed_Division"
begin

unbundle bit_operations_syntax

section \<open>Continuous ADC capture: ring buffer, export, trapezoidal filter\<close>

text \<open>
  A shallow embedding of \<^verbatim>\<open>src/main/continuous_read_main.c\<close> and
  \<^verbatim>\<open>src/main/trapfilter.h\<close>. The targets are 32-bit (ESP32 family), so
  \<^verbatim>\<open>size_t\<close>, \<^verbatim>\<open>uint32_t\<close> and \<^verbatim>\<open>int\<close> are 32 bits wide. Unsigned
  arithmetic wraps; \<^verbatim>\<open>int32_t\<close> values are 32-bit words read through \<open>sint\<close>,
  with two's complement wrap-around on \<open>+\<close> and \<open>-\<close>. An array access outside the
  array is undefined behaviour in C; the model makes it a \<open>fault\<close> value.
\<close>

subsection \<open>Machine types and memory faults\<close>

type_synonym u16 = "16 word"
type_synonym u32 = "32 word"
type_synonym u64 = "64 word"
type_synonym i32 = "32 word"
type_synonym size_t = "32 word"

datatype fault =
    CircBufFault      \<comment> \<open>index outside \<^verbatim>\<open>circ_buf[CIRC_BUF_SAMPLES]\<close>\<close>
  | OutBufferFault    \<comment> \<open>index outside the caller's \<^verbatim>\<open>out_buffer\<close>\<close>
  | FilterBufferFault \<comment> \<open>index outside the buffer handed to the filter\<close>
  | DivideByZero      \<comment> \<open>integer division by zero\<close>

subsection \<open>continuous_read_main.c: configuration and shared state\<close>

definition CIRC_BUF_SAMPLES :: size_t where
  "CIRC_BUF_SAMPLES = 32768"

definition CIRC_BUF_MASK :: size_t where
  "CIRC_BUF_MASK = CIRC_BUF_SAMPLES - 1"

text \<open>
  The file-scope variables. \<open>task_notify\<close> is the FreeRTOS notification value of
  \<^verbatim>\<open>s_task_handle\<close>, the only thing the two ADC callbacks touch.
\<close>

record app_state =
  circ_buf :: "u16 list"
  circ_buf_wr :: size_t
  s_voltage_sum :: u64
  s_sample_count :: u32
  trigger_seen :: bool
  capture_complete :: bool
  task_notify :: u32

text \<open>The state at program start: statics are zero-initialised.\<close>

definition app_init :: app_state where
  "app_init = \<lparr> circ_buf = replicate (unat CIRC_BUF_SAMPLES) 0, circ_buf_wr = 0,
                s_voltage_sum = 0, s_sample_count = 0,
                trigger_seen = False, capture_complete = False, task_notify = 0 \<rparr>"

subsection \<open>export_circular_buffer\<close>

text \<open>
  \<^verbatim>\<open>for (size_t i = 0; i < total_samples && i < CIRC_BUF_SAMPLES; i++)
      out_buffer[i] = circ_buf[(start + i) & CIRC_BUF_MASK];\<close>
  The loop, from counter \<open>i\<close> on; \<open>out\<close> is the caller's buffer.
\<close>

function export_loop :: "u16 list \<Rightarrow> size_t \<Rightarrow> size_t \<Rightarrow> size_t \<Rightarrow> u16 list \<Rightarrow> fault + u16 list" where
  "export_loop buf start total_samples i out =
     (if i < total_samples \<and> i < CIRC_BUF_SAMPLES then
        (let src = (start + i) AND CIRC_BUF_MASK in
         if \<not> unat src < length buf then Inl CircBufFault
         else if \<not> unat i < length out then Inl OutBufferFault
         else export_loop buf start total_samples (i + 1) (out[unat i := buf ! unat src]))
      else Inr out)"
  by pat_completeness auto
termination
proof (relation "measure (\<lambda>(buf, start, total_samples, i, out). unat CIRC_BUF_SAMPLES - unat i)")
  show "wf (measure (\<lambda>(buf :: u16 list, start :: size_t, total_samples :: size_t, i :: size_t, out :: u16 list).
              unat CIRC_BUF_SAMPLES - unat i))"
    by simp
next
  fix buf :: "u16 list" and start total_samples i :: size_t and out :: "u16 list" and src :: size_t
  assume "i < total_samples \<and> i < CIRC_BUF_SAMPLES"
  then have lt: "unat i < 32768"
    by (simp add: CIRC_BUF_SAMPLES_def word_less_nat_alt)
  then have "unat (i + 1) = unat i + 1"
    by (simp add: unat_word_ariths)
  with lt show "((buf, start, total_samples, i + 1, out[unat i := buf ! unat src]),
                 (buf, start, total_samples, i, out))
        \<in> measure (\<lambda>(buf, start, total_samples, i, out). unat CIRC_BUF_SAMPLES - unat i)"
    by (simp add: CIRC_BUF_SAMPLES_def)
qed

declare export_loop.simps [simp del]

text \<open>
  The write cursor is snapshotted under the spinlock, then
  \<^verbatim>\<open>start = (current_wr - pre_samples) & CIRC_BUF_MASK\<close>. The function returns
  \<^verbatim>\<open>void\<close>: its only result is the contents of \<open>out_buffer\<close>.
\<close>

definition export_circular_buffer :: "app_state \<Rightarrow> u16 list \<Rightarrow> size_t \<Rightarrow> size_t \<Rightarrow> fault + u16 list" where
  "export_circular_buffer st out_buffer pre_samples total_samples =
     (let current_wr = circ_buf_wr st;
          start = (current_wr - pre_samples) AND CIRC_BUF_MASK
      in export_loop (circ_buf st) start total_samples 0 out_buffer)"

subsection \<open>app_main: draining one frame into the ring buffer\<close>

text \<open>
  The calibration set up by \<^verbatim>\<open>adc_calibration_init\<close>: \<open>None\<close> when
  \<^verbatim>\<open>do_calibration\<close> is false, otherwise the driver's \<^verbatim>\<open>adc_cali_raw_to_voltage\<close>,
  which gives \<open>Some mv\<close> when it returns \<^verbatim>\<open>ESP_OK\<close>.
\<close>

type_synonym calibration = "(u32 \<Rightarrow> i32 option) option"

text \<open>
  A frame is the list of \<^verbatim>\<open>raw_data\<close> values that \<^verbatim>\<open>EXAMPLE_ADC_GET_DATA\<close> extracts
  from the bytes returned by one successful \<^verbatim>\<open>adc_continuous_read\<close>, one per
  \<^verbatim>\<open>SOC_ADC_DIGI_RESULT_BYTES\<close> stride. The body of the per-sample loop:
  \<^verbatim>\<open>circ_buf[local_wr_pos] = (uint16_t)raw_data;
  local_wr_pos = (local_wr_pos + 1) & CIRC_BUF_MASK;
  frame_sample_count++;
  if (do_calibration && (frame_sample_count & 0x7) == 0) ... frame_voltage_sum += voltage_mv * 8;\<close>
\<close>

fun frame_loop :: "calibration \<Rightarrow> u32 list \<Rightarrow> u16 list \<Rightarrow> size_t \<Rightarrow> u64 \<Rightarrow> u32
                     \<Rightarrow> fault + (u16 list \<times> size_t \<times> u64 \<times> u32)" where
  "frame_loop cal [] buf local_wr_pos frame_voltage_sum frame_sample_count =
     Inr (buf, local_wr_pos, frame_voltage_sum, frame_sample_count)"
| "frame_loop cal (raw_data # rest) buf local_wr_pos frame_voltage_sum frame_sample_count =
     (if \<not> unat local_wr_pos < length buf then Inl CircBufFault
      else
        (let buf' = buf[unat local_wr_pos := ucast raw_data];
             pos' = (local_wr_pos + 1) AND CIRC_BUF_MASK;
             count' = frame_sample_count + 1;
             sum' = (case cal of
                       None \<Rightarrow> frame_voltage_sum
                     | Some raw_to_voltage \<Rightarrow>
                         if count' AND 7 = 0 then
                           (case raw_to_voltage raw_data of
                              Some voltage_mv \<Rightarrow> frame_voltage_sum + scast (voltage_mv * 8)
                            | None \<Rightarrow> frame_voltage_sum)
                         else frame_voltage_sum)
         in frame_loop cal rest buf' pos' sum' count'))"

text \<open>
  One \<^verbatim>\<open>ESP_OK\<close> pass of the inner \<^verbatim>\<open>while\<close> loop: read the cursor once, run
  the per-sample loop, publish cursor and statistics in one critical section.
\<close>

definition ingest_frame :: "calibration \<Rightarrow> app_state \<Rightarrow> u32 list \<Rightarrow> fault + app_state" where
  "ingest_frame cal st frame =
     (case frame_loop cal frame (circ_buf st) (circ_buf_wr st) 0 0 of
        Inl e \<Rightarrow> Inl e
      | Inr (buf, local_wr_pos, frame_voltage_sum, frame_sample_count) \<Rightarrow>
          Inr (st\<lparr> circ_buf := buf, circ_buf_wr := local_wr_pos,
                   s_voltage_sum := s_voltage_sum st + frame_voltage_sum,
                   s_sample_count := s_sample_count st + frame_sample_count \<rparr>))"

text \<open>The frames drained one after the other, in arrival order.\<close>

fun ingest_frames :: "calibration \<Rightarrow> app_state \<Rightarrow> u32 list list \<Rightarrow> fault + app_state" where
  "ingest_frames cal st [] = Inr st"
| "ingest_frames cal st (frame # frames) =
     (case ingest_frame cal st frame of
        Inl e \<Rightarrow> Inl e
      | Inr st' \<Rightarrow> ingest_frames cal st' frames)"

subsection \<open>handle_trigger_capture\<close>

text \<open>
  \<^verbatim>\<open>if (!trigger_seen) { trigger_seen = true; vTaskDelay(pdMS_TO_TICKS(100));
  adc_continuous_stop(handle); export_buffer = malloc((pre + post) * sizeof(uint16_t));
  if (export_buffer) { export_circular_buffer(export_buffer, pre, pre + post); ... }
  capture_complete = true; trigger_seen = false; adc_continuous_start(handle); }\<close>

  Between setting \<^verbatim>\<open>trigger_seen\<close> and stopping the ADC the function only sleeps
  for 100 ms; the acquisition loop of \<^verbatim>\<open>app_main\<close> keeps draining frames
  meanwhile. \<open>delay_frames\<close> are the frames it ingests during that delay: the ADC
  and the scheduler fix them, the arguments do not.
  \<open>export_buffer\<close> is what \<^verbatim>\<open>malloc\<close> returns: \<open>None\<close> for \<^verbatim>\<open>NULL\<close>,
  otherwise the fresh block with whatever it holds. The result carries the block as
  it is when the samples are logged, before \<^verbatim>\<open>free\<close>.
\<close>

definition handle_trigger_capture ::
  "calibration \<Rightarrow> u32 list list \<Rightarrow> u16 list option \<Rightarrow> app_state \<Rightarrow> size_t \<Rightarrow> size_t
     \<Rightarrow> fault + (app_state \<times> u16 list option)" where
  "handle_trigger_capture cal delay_frames export_buffer st pre_trigger_samples post_trigger_samples =
     (if \<not> trigger_seen st then
        (case ingest_frames cal (st\<lparr> trigger_seen := True \<rparr>) delay_frames of
           Inl e \<Rightarrow> Inl e
         | Inr st1 \<Rightarrow>
             (case export_buffer of
                None \<Rightarrow> Inr (st1\<lparr> capture_complete := True, trigger_seen := False \<rparr>, None)
              | Some out \<Rightarrow>
                  (case export_circular_buffer st1 out pre_trigger_samples
                          (pre_trigger_samples + post_trigger_samples) of
                     Inl e \<Rightarrow> Inl e
                   | Inr out' \<Rightarrow>
                       Inr (st1\<lparr> capture_complete := True, trigger_seen := False \<rparr>, Some out'))))
      else Inr (st, None))"

subsection \<open>The ADC driver callbacks\<close>

text \<open>
  Both run in interrupt context. \<^verbatim>\<open>vTaskNotifyGiveFromISR\<close> increments the
  notification value of the task and reports through \<^verbatim>\<open>mustYield\<close> whether a task
  of higher priority was woken; \<open>woken\<close> is that answer of the kernel.
\<close>

definition s_conv_done_cb :: "bool \<Rightarrow> app_state \<Rightarrow> app_state \<times> bool" where
  "s_conv_done_cb woken st = (st\<lparr> task_notify := task_notify st + 1 \<rparr>, woken)"

definition s_pool_ovf_cb :: "bool \<Rightarrow> app_state \<Rightarrow> app_state \<times> bool" where
  "s_pool_ovf_cb woken st = (st\<lparr> task_notify := task_notify st + 1 \<rparr>, woken)"

subsection \<open>trapfilter.h\<close>

text \<open>
  The filter shape is fixed by three macros, which a user may define before including
  the header; the functions below take them as \<open>L\<close>, \<open>G\<close> and \<open>R\<close>.
\<close>

definition TRAP_FILTER_LENGTH :: int where
  "TRAP_FILTER_LENGTH = 64"

definition TRAP_FILTER_GAP :: int where
  "TRAP_FILTER_GAP = 32"

definition TRAP_FILTER_RATE :: int where
  "TRAP_FILTER_RATE = 8"

record trap_filter =
  filter_value :: i32
  buffer_pos :: size_t
  samples_processed :: size_t
  initialized :: bool

text \<open>\<^verbatim>\<open>(pos == 0) ? (buffer_size - 1) : (pos - 1)\<close>, one position backwards.\<close>

definition step_back :: "size_t \<Rightarrow> size_t \<Rightarrow> size_t" where
  "step_back buffer_size pos = (if pos = 0 then buffer_size - 1 else pos - 1)"

text \<open>
  \<^verbatim>\<open>for (int i = 0; i < filter_rate - 1; ++i) { *pos = ...; val_sum += buffer[*pos]; }\<close>
  with \<open>n\<close> iterations to go.
\<close>

fun filter_sum_loop :: "u16 list \<Rightarrow> size_t \<Rightarrow> nat \<Rightarrow> size_t \<Rightarrow> i32 \<Rightarrow> fault + (i32 \<times> size_t)" where
  "filter_sum_loop buffer buffer_size 0 pos val_sum = Inr (val_sum, pos)"
| "filter_sum_loop buffer buffer_size (Suc n) pos val_sum =
     (let pos' = step_back buffer_size pos in
      if \<not> unat pos' < length buffer then Inl FilterBufferFault
      else filter_sum_loop buffer buffer_size n pos' (val_sum + ucast (buffer ! unat pos')))"

text \<open>Returns the sum and the position the walk stopped at (\<^verbatim>\<open>*pos\<close>).\<close>

definition filter_sum_step :: "u16 list \<Rightarrow> size_t \<Rightarrow> size_t \<Rightarrow> int \<Rightarrow> fault + (i32 \<times> size_t)" where
  "filter_sum_step buffer buffer_size pos filter_rate =
     (if \<not> unat pos < length buffer then Inl FilterBufferFault
      else filter_sum_loop buffer buffer_size (nat (filter_rate - 1)) pos (ucast (buffer ! unat pos)))"

definition trap_filter_init :: "trap_filter \<Rightarrow> trap_filter" where
  "trap_filter_init flt =
     flt\<lparr> filter_value := 0, buffer_pos := 0, samples_processed := 0, initialized := False \<rparr>"

text \<open>
  \<^verbatim>\<open>for (int i = 0; i < shift; i++) work_pos = (work_pos == 0) ? (buffer_size - 1) : (work_pos - 1);\<close>
  with \<open>n\<close> iterations to go.
\<close>

fun shift_loop :: "size_t \<Rightarrow> nat \<Rightarrow> size_t \<Rightarrow> size_t" where
  "shift_loop buffer_size 0 work_pos = work_pos"
| "shift_loop buffer_size (Suc n) work_pos = shift_loop buffer_size n (step_back buffer_size work_pos)"

text \<open>
  The value a constant expression has once it is held in a C \<^verbatim>\<open>int\<close>: values of
  the 32-bit range stay, any other wraps modulo \<open>2^32\<close>.
\<close>

definition c_int :: "int \<Rightarrow> int" where
  "c_int z = sint (word_of_int z :: i32)"

text \<open>
  Returns the updated filter state (\<open>flt\<close>) and the value returned to the caller.
  The shift counts are \<^verbatim>\<open>const int\<close> locals and the rate is passed to
  \<^verbatim>\<open>filter_sum_step\<close> as its \<^verbatim>\<open>int filter_rate\<close>, so all three are C ints.
  The constant \<^verbatim>\<open>filter_end_shift\<close> of the source is computed and never used.
\<close>

definition trap_filter_step ::
  "int \<Rightarrow> int \<Rightarrow> int \<Rightarrow> trap_filter \<Rightarrow> u16 list \<Rightarrow> size_t \<Rightarrow> size_t \<Rightarrow> fault + (trap_filter \<times> i32)" where
  "trap_filter_step L G R flt circ_buffer buffer_size current_write_pos =
     (let filter_length_shift = c_int (L - R + 1);
          filter_gap_shift = c_int (G - R + 1);
          filter_rate = c_int R
      in
      if \<not> initialized flt then
        (case filter_sum_step circ_buffer buffer_size current_write_pos filter_rate of
           Inl e \<Rightarrow> Inl e
         | Inr (s, temp_pos) \<Rightarrow>
             Inr (flt\<lparr> buffer_pos := current_write_pos, initialized := True, filter_value := s \<rparr>, s))
      else
        (case filter_sum_step circ_buffer buffer_size current_write_pos filter_rate of
           Inl e \<Rightarrow> Inl e
         | Inr (s1, p1) \<Rightarrow>
        (case filter_sum_step circ_buffer buffer_size
                (shift_loop buffer_size (nat filter_length_shift) p1) filter_rate of
           Inl e \<Rightarrow> Inl e
         | Inr (s2, p2) \<Rightarrow>
        (case filter_sum_step circ_buffer buffer_size
                (shift_loop buffer_size (nat filter_gap_shift) p2) filter_rate of
           Inl e \<Rightarrow> Inl e
         | Inr (s3, p3) \<Rightarrow>
        (case filter_sum_step circ_buffer buffer_size
                (shift_loop buffer_size (nat filter_length_shift) p3) filter_rate of
           Inl e \<Rightarrow> Inl e
         | Inr (s4, p4) \<Rightarrow>
             (let v = filter_value flt + s1 - s2 - s3 + s4 in
              Inr (flt\<lparr> buffer_pos := current_write_pos, filter_value := v,
                          samples_processed := samples_processed flt + 1 \<rparr>, v)))))))"

text \<open>
  Repeated calls of \<^verbatim>\<open>trap_filter_step\<close> on one filter, one call per snapshot
  (buffer contents, write position) of the same ring buffer.
\<close>

fun trap_filter_steps ::
  "int \<Rightarrow> int \<Rightarrow> int \<Rightarrow> trap_filter \<Rightarrow> size_t \<Rightarrow> (u16 list \<times> size_t) list \<Rightarrow> fault + trap_filter" where
  "trap_filter_steps L G R flt buffer_size [] = Inr flt"
| "trap_filter_steps L G R flt buffer_size ((circ_buffer, current_write_pos) # rest) =
     (case trap_filter_step L G R flt circ_buffer buffer_size current_write_pos of
        Inl e \<Rightarrow> Inl e
      | Inr (flt', v) \<Rightarrow> trap_filter_steps L G R flt' buffer_size rest)"

text \<open>
  \<^verbatim>\<open>int32_t effective_length = 2 * TRAP_FILTER_LENGTH * TRAP_FILTER_RATE;
  return filter->filter_value / effective_length;\<close>
  C division of signed integers truncates towards zero (\<open>sdiv\<close>).
\<close>

definition trap_filter_get_normalized :: "int \<Rightarrow> int \<Rightarrow> trap_filter \<Rightarrow> fault + (trap_filter \<times> i32)" where
  "trap_filter_get_normalized L R flt =
     (let effective_length = (word_of_int (2 * L * R) :: i32) in
      if effective_length = 0 then Inl DivideByZero
      else Inr (flt, word_of_int (sint (filter_value flt) sdiv sint effective_length)))"

subsection \<open>What the specification speaks of\<close>

text \<open>
  The specification's ring buffer stores logical index \<open>j\<close> in slot \<open>j & (N - 1)\<close>;
  \<open>logical_window buf first count\<close> is its logical subsequence
  \<open>[first, first + count)\<close>.
\<close>

definition ring_slot :: "int \<Rightarrow> nat" where
  "ring_slot j = nat (j mod uint CIRC_BUF_SAMPLES)"

definition logical_window :: "u16 list \<Rightarrow> int \<Rightarrow> nat \<Rightarrow> u16 list" where
  "logical_window buf first count = map (\<lambda>k. buf ! ring_slot (first + int k)) [0..<count]"

text \<open>The position \<open>j\<close> places behind \<open>pos\<close> in a buffer of \<open>buffer_size\<close> slots.\<close>

definition back_index :: "size_t \<Rightarrow> size_t \<Rightarrow> nat \<Rightarrow> nat" where
  "back_index buffer_size pos j = nat ((uint pos - int j) mod uint buffer_size)"

text \<open>The sum of the \<open>r\<close> samples that start \<open>off\<close> places behind \<open>pos\<close>, read directly.\<close>

definition lobe_sum :: "u16 list \<Rightarrow> size_t \<Rightarrow> size_t \<Rightarrow> nat \<Rightarrow> nat \<Rightarrow> i32" where
  "lobe_sum buffer buffer_size pos off r =
     (\<Sum>j\<leftarrow>[0..<r]. ucast (buffer ! back_index buffer_size pos (off + j)))"

text \<open>
  The brute-force four-term combination of the specification: the \<open>R\<close> newest samples
  added, \<open>R\<close> samples subtracted after stepping back \<open>L - R + 1\<close> places, \<open>R\<close> samples
  subtracted after \<open>G - R + 1\<close> further places, \<open>R\<close> samples added after
  \<open>L - R + 1\<close> further places; a step count below zero is no step. Each lobe sum
  ends on its last sample, so for \<open>R - 1 \<le> L\<close> and \<open>R - 1 \<le> G\<close> the lobes start
  \<open>0\<close>, \<open>L\<close>, \<open>L + G\<close> and \<open>2L + G\<close> places behind the write position.
\<close>

definition trap_brute_force :: "int \<Rightarrow> int \<Rightarrow> int \<Rightarrow> u16 list \<Rightarrow> size_t \<Rightarrow> size_t \<Rightarrow> i32" where
  "trap_brute_force L G R buffer buffer_size pos =
     (let r = nat R;
          o2 = (r - 1) + nat (L - R + 1);
          o3 = o2 + (r - 1) + nat (G - R + 1);
          o4 = o3 + (r - 1) + nat (L - R + 1)
      in lobe_sum buffer buffer_size pos 0 r - lobe_sum buffer buffer_size pos o2 r
         - lobe_sum buffer buffer_size pos o3 r + lobe_sum buffer buffer_size pos o4 r)"

text \<open>
  The trapezoid over the whole window, summed from scratch: for each of the \<open>R\<close>
  newest positions, the \<open>L\<close> samples ending there minus the \<open>L\<close> samples ending
  \<open>L + G\<close> places earlier.
\<close>

definition trap_window_sum :: "int \<Rightarrow> int \<Rightarrow> int \<Rightarrow> u16 list \<Rightarrow> size_t \<Rightarrow> size_t \<Rightarrow> i32" where
  "trap_window_sum L G R buffer buffer_size pos =
     (\<Sum>j\<leftarrow>[0..<nat R]. lobe_sum buffer buffer_size pos j (nat L)
                          - lobe_sum buffer buffer_size pos (j + nat L + nat G) (nat L))"

text \<open>
  One write per call: every snapshot after the first has its position one place
  after the previous one, wrapping at \<open>buffer_size\<close>, and its buffer is the
  previous buffer with at most the cell at that position rewritten, the sample just
  written. The position handed to the filter is that of the newest sample.
\<close>

fun one_write_per_call :: "size_t \<Rightarrow> u16 list \<Rightarrow> size_t \<Rightarrow> (u16 list \<times> size_t) list \<Rightarrow> bool" where
  "one_write_per_call buffer_size b p [] = True"
| "one_write_per_call buffer_size b p ((b', p') # rest) =
     (p' < buffer_size \<and> step_back buffer_size p' = p \<and> b' = b[unat p' := b' ! unat p']
      \<and> one_write_per_call buffer_size b' p' rest)"

text \<open>
  After the samples \<open>xs\<close> were written to a buffer \<open>buf0\<close> with cursor \<open>w0\<close>:
  the cursor \<open>w\<close> has advanced by their number, the last \<open>min k N\<close> of them sit
  at their masked offsets behind \<open>w\<close>, youngest first, and every other slot is as
  it was.
\<close>

definition holds_last_written :: "u16 list \<Rightarrow> size_t \<Rightarrow> u32 list \<Rightarrow> u16 list \<Rightarrow> size_t \<Rightarrow> bool" where
  "holds_last_written buf0 w0 xs buf w \<longleftrightarrow>
     length buf = unat CIRC_BUF_SAMPLES
     \<and> uint w = (uint w0 + int (length xs)) mod uint CIRC_BUF_SAMPLES
     \<and> (\<forall>j < min (length xs) (unat CIRC_BUF_SAMPLES).
           buf ! ring_slot (uint w - 1 - int j) = ucast (xs ! (length xs - 1 - j)))
     \<and> (\<forall>j. min (length xs) (unat CIRC_BUF_SAMPLES) \<le> j \<and> j < unat CIRC_BUF_SAMPLES \<longrightarrow>
           buf ! ring_slot (uint w - 1 - int j) = buf0 ! ring_slot (uint w - 1 - int j))"

section \<open>Masked index arithmetic\<close>

lemma CIRC_BUF_MASK_mask: "CIRC_BUF_MASK = mask 15"
  by (simp add: CIRC_BUF_MASK_def CIRC_BUF_SAMPLES_def mask_eq_exp_minus_1)

lemma and_CIRC_BUF_MASK: "x AND CIRC_BUF_MASK = take_bit 15 x"
  by (simp add: CIRC_BUF_MASK_mask take_bit_eq_mask)

lemma uint_and_CIRC_BUF_MASK: "uint (x AND CIRC_BUF_MASK) = uint x mod 32768"
  by (simp add: and_CIRC_BUF_MASK take_bit_eq_mod uint_mod)

lemma unat_and_CIRC_BUF_MASK: "unat (x AND CIRC_BUF_MASK) = unat x mod 32768"
  by (simp add: and_CIRC_BUF_MASK take_bit_eq_mod unat_mod)

lemma unat_and_CIRC_BUF_MASK_less: "unat (x AND CIRC_BUF_MASK) < unat CIRC_BUF_SAMPLES"
  by (simp add: unat_and_CIRC_BUF_MASK CIRC_BUF_SAMPLES_def)

lemma uint_size_t_mod: "uint (word_of_int z :: size_t) mod 32768 = z mod 32768"
proof -
  have "uint (word_of_int z :: size_t) = z mod 2 ^ 32"
    by (simp add: uint_word_of_int)
  moreover have "(32768 :: int) dvd 2 ^ 32" by simp
  ultimately show ?thesis
    by (simp only: mod_mod_cancel)
qed

lemma mod_size_t_mod: "(z mod 4294967296) mod 32768 = z mod (32768 :: int)"
proof -
  have "(32768 :: int) dvd 4294967296" by simp
  then show ?thesis by (simp only: mod_mod_cancel)
qed

lemma export_slot:
  "unat ((((w - pre) AND CIRC_BUF_MASK) + of_nat k) AND CIRC_BUF_MASK)
     = ring_slot (uint (w :: size_t) - uint (pre :: size_t) + int k)"
proof -
  let ?a = "uint (w - pre)" and ?k = "uint (of_nat k :: size_t)"
  have a: "?a mod 32768 = (uint w - uint pre) mod 32768"
    by (simp add: uint_word_ariths mod_size_t_mod)
  have k: "?k mod 32768 = int k mod 32768"
  proof -
    have "(of_nat k :: size_t) = word_of_int (int k)" by simp
    then show ?thesis
      by (simp only: uint_size_t_mod)
  qed
  have "uint ((((w - pre) AND CIRC_BUF_MASK) + of_nat k) AND CIRC_BUF_MASK)
          = ((?a mod 32768 + ?k) mod 4294967296) mod 32768"
    by (simp add: uint_and_CIRC_BUF_MASK uint_word_ariths)
  also have "\<dots> = (?a mod 32768 + ?k mod 32768) mod 32768"
    by (simp only: mod_size_t_mod) (simp add: mod_simps)
  also have "\<dots> = (uint w - uint pre + int k) mod 32768"
    by (simp only: a k) (simp add: mod_simps)
  finally show ?thesis
    by (simp add: ring_slot_def CIRC_BUF_SAMPLES_def unat_eq_nat_uint)
qed

section \<open>The export copy\<close>

lemma export_loop_result:
  assumes "length buf = unat CIRC_BUF_SAMPLES"
    and "m = min (unat total_samples) (unat CIRC_BUF_SAMPLES)"
    and "m \<le> length out" and "unat i \<le> m"
  shows "export_loop buf start total_samples i out =
           Inr (take (unat i) out
                @ map (\<lambda>k. buf ! unat ((start + of_nat k) AND CIRC_BUF_MASK)) [unat i..<m]
                @ drop m out)"
  using assms(3,4)
proof (induction "m - unat i" arbitrary: i out)
  case 0
  then have "unat i = m" by simp
  then have "\<not> (i < total_samples \<and> i < CIRC_BUF_SAMPLES)"
    using assms(2) by (auto simp: word_less_nat_alt)
  then have "export_loop buf start total_samples i out = Inr out"
    by (simp only: export_loop.simps [of buf start total_samples i out] if_False)
  then show ?case
    using \<open>unat i = m\<close> by simp
next
  case (Suc d)
  then have lt: "unat i < m" by simp
  then have cond: "i < total_samples \<and> i < CIRC_BUF_SAMPLES"
    using assms(2) by (simp add: word_less_nat_alt)
  have "unat i < 32768"
    using lt assms(2) by (simp add: CIRC_BUF_SAMPLES_def)
  then have next_i: "unat (i + 1) = Suc (unat i)"
    by (simp add: unat_word_ariths)
  let ?src = "(start + i) AND CIRC_BUF_MASK"
  let ?out = "out[unat i := buf ! unat ?src]"
  have src: "unat ?src < length buf"
    using assms(1) by (simp add: unat_and_CIRC_BUF_MASK_less)
  have i_out: "unat i < length out"
    using lt Suc.prems by simp
  have step: "export_loop buf start total_samples i out = export_loop buf start total_samples (i + 1) ?out"
    using cond src i_out by (simp add: export_loop.simps [of buf start total_samples i out] Let_def)
  have ih: "export_loop buf start total_samples (i + 1) ?out =
      Inr (take (unat (i + 1)) ?out
           @ map (\<lambda>k. buf ! unat ((start + of_nat k) AND CIRC_BUF_MASK)) [unat (i + 1)..<m]
           @ drop m ?out)"
    using Suc.hyps(1) [of "i + 1" ?out] Suc.hyps(2) Suc.prems lt next_i by simp
  have t: "take (Suc (unat i)) ?out = take (unat i) out @ [buf ! unat ?src]"
    using i_out by (simp add: take_Suc_conv_app_nth)
  have d: "drop m ?out = drop m out"
    using lt by simp
  have u: "[unat i..<m] = unat i # [Suc (unat i)..<m]"
    using lt by (simp add: upt_conv_Cons)
  show ?case
    by (simp only: step ih next_i t d u) simp
qed


lemma export_circular_buffer_result:
  assumes "length (circ_buf st) = unat CIRC_BUF_SAMPLES"
    and "m = min (unat total_samples) (unat CIRC_BUF_SAMPLES)"
    and "m \<le> length out"
  shows "export_circular_buffer st out pre_samples total_samples =
           Inr (logical_window (circ_buf st) (uint (circ_buf_wr st) - uint pre_samples) m @ drop m out)"
proof -
  have "export_circular_buffer st out pre_samples total_samples =
          Inr (take (unat (0 :: size_t)) out
               @ map (\<lambda>k. circ_buf st ! unat ((((circ_buf_wr st - pre_samples) AND CIRC_BUF_MASK) + of_nat k)
                                             AND CIRC_BUF_MASK)) [unat (0 :: size_t)..<m]
               @ drop m out)"
    unfolding export_circular_buffer_def Let_def
    by (rule export_loop_result [OF assms(1) assms(2) assms(3)]) simp
  then show ?thesis
    by (simp add: export_slot logical_window_def)
qed

text \<open>
  Claim C2, as amended. A request for more than \<open>N\<close> samples is not rejected:
  the export reports no error, copies the first \<open>N\<close> samples of the requested
  window and leaves the rest of the output buffer as it was.
\<close>

theorem export_clamps:
  assumes "length (circ_buf st) = unat CIRC_BUF_SAMPLES"
    and "unat CIRC_BUF_SAMPLES < unat total_samples"
    and "unat CIRC_BUF_SAMPLES \<le> length out"
  shows "export_circular_buffer st out pre_samples total_samples =
           Inr (logical_window (circ_buf st) (uint (circ_buf_wr st) - uint pre_samples) (unat CIRC_BUF_SAMPLES)
                @ drop (unat CIRC_BUF_SAMPLES) out)"
  by (rule export_circular_buffer_result [OF assms(1)]) (use assms(2,3) in simp_all)

theorem export_clamps_witness:
  "length (circ_buf app_init) = unat CIRC_BUF_SAMPLES
   \<and> unat CIRC_BUF_SAMPLES < unat (32769 :: size_t)
   \<and> unat CIRC_BUF_SAMPLES \<le> length (replicate 32769 (7 :: u16))
   \<and> export_circular_buffer app_init (replicate 32769 7) 0 32769 =
           Inr (logical_window (circ_buf app_init) (uint (circ_buf_wr app_init) - uint (0 :: size_t)) (unat CIRC_BUF_SAMPLES)
                @ drop (unat CIRC_BUF_SAMPLES) (replicate 32769 7))"
proof -
  have h1: "length (circ_buf app_init) = unat CIRC_BUF_SAMPLES"
    by (simp add: app_init_def)
  have h2: "unat CIRC_BUF_SAMPLES < unat (32769 :: size_t)"
    by (simp add: CIRC_BUF_SAMPLES_def)
  have h3: "unat CIRC_BUF_SAMPLES \<le> length (replicate 32769 (7 :: u16))"
    by (simp add: CIRC_BUF_SAMPLES_def)
  show ?thesis
    using export_clamps [OF h1 h2 h3] h1 h2 h3 by simp
qed

lemma logical_window_replicate:
  "count \<le> n \<Longrightarrow> n = unat CIRC_BUF_SAMPLES \<Longrightarrow> logical_window (replicate n x) first count = replicate count x"
proof -
  assume "count \<le> n" "n = unat CIRC_BUF_SAMPLES"
  have "\<And>j. ring_slot j < unat CIRC_BUF_SAMPLES"
    by (simp add: ring_slot_def CIRC_BUF_SAMPLES_def)
  then have "map (\<lambda>k. replicate n x ! ring_slot (first + int k)) [0..<count] = map (\<lambda>k. x) [0..<count]"
    using \<open>n = unat CIRC_BUF_SAMPLES\<close> by simp
  then show ?thesis
    by (simp add: logical_window_def map_replicate_const)
qed

text \<open>
  Claim C2 as stated fails: with \<open>pre = 0\<close> and \<open>post = 32769 > N\<close> the export
  returns normally, and the last requested cell still holds the \<open>7\<close> it held before.
\<close>

theorem export_oversize_counterexample:
  "unat CIRC_BUF_SAMPLES < unat (0 :: size_t) + unat (32769 :: size_t)
   \<and> export_circular_buffer app_init (replicate 32769 7) 0 (0 + 32769) = Inr (replicate 32768 0 @ [7])"
proof -
  have h1: "length (circ_buf app_init) = unat CIRC_BUF_SAMPLES"
    by (simp add: app_init_def)
  have m: "unat CIRC_BUF_SAMPLES = min (unat (0 + 32769 :: size_t)) (unat CIRC_BUF_SAMPLES)"
    by (simp add: CIRC_BUF_SAMPLES_def)
  have h3: "unat CIRC_BUF_SAMPLES \<le> length (replicate 32769 (7 :: u16))"
    by (simp add: CIRC_BUF_SAMPLES_def)
  have d: "drop 32768 (replicate 32769 (7 :: u16)) = [7]"
    by simp
  have w: "logical_window (circ_buf app_init) (uint (circ_buf_wr app_init) - uint (0 :: size_t)) (unat CIRC_BUF_SAMPLES)
        = replicate 32768 0"
    using logical_window_replicate [of "unat CIRC_BUF_SAMPLES" "unat CIRC_BUF_SAMPLES" "0 :: u16"]
    by (simp add: app_init_def CIRC_BUF_SAMPLES_def)
  have "export_circular_buffer app_init (replicate 32769 7) 0 (0 + 32769)
      = Inr (logical_window (circ_buf app_init) (uint (circ_buf_wr app_init) - uint (0 :: size_t)) (unat CIRC_BUF_SAMPLES)
                @ drop (unat CIRC_BUF_SAMPLES) (replicate 32769 7))"
    by (rule export_circular_buffer_result [OF h1 m h3])
  then show ?thesis
    by (simp only: w) (simp add: CIRC_BUF_SAMPLES_def)
qed

section \<open>Writing frames into the ring buffer\<close>

lemma ring_slot_alt: "ring_slot j = nat (j mod 32768)"
  by (simp add: ring_slot_def CIRC_BUF_SAMPLES_def)

lemma ring_slot_eq_iff: "ring_slot a = ring_slot b \<longleftrightarrow> a mod 32768 = b mod 32768"
proof -
  have "0 \<le> a mod 32768" "0 \<le> b mod 32768"
    by simp_all
  then show ?thesis
    unfolding ring_slot_alt by (rule eq_nat_nat_iff)
qed

lemma mod_back_shift: "(a mod n - b - c) mod n = (a - b - c) mod (n :: int)"
proof -
  have "(a mod n - (b + c)) mod n = (a - (b + c)) mod n"
    by (rule mod_diff_left_eq)
  then show ?thesis
    by (simp only: diff_diff_eq)
qed

lemma holds_last_writtenD:
  assumes "holds_last_written buf0 w0 xs buf w"
  shows "length buf = 32768"
    and "uint w = (uint w0 + int (length xs)) mod 32768"
    and "\<And>j. j < length xs \<Longrightarrow> j < 32768 \<Longrightarrow>
           buf ! ring_slot (uint w - 1 - int j) = ucast (xs ! (length xs - 1 - j))"
    and "\<And>j. length xs \<le> j \<Longrightarrow> j < 32768 \<Longrightarrow>
           buf ! ring_slot (uint w - 1 - int j) = buf0 ! ring_slot (uint w - 1 - int j)"
proof -
  have n: "unat CIRC_BUF_SAMPLES = 32768" "uint CIRC_BUF_SAMPLES = 32768"
    by (simp_all add: CIRC_BUF_SAMPLES_def)
  note h = assms [unfolded holds_last_written_def n]
  show "length buf = 32768" using h by blast
  show "uint w = (uint w0 + int (length xs)) mod 32768" using h by blast
  show "buf ! ring_slot (uint w - 1 - int j) = ucast (xs ! (length xs - 1 - j))"
    if "j < length xs" "j < 32768" for j
  proof -
    have "j < min (length xs) 32768" using that by simp
    with h show ?thesis by blast
  qed
  show "buf ! ring_slot (uint w - 1 - int j) = buf0 ! ring_slot (uint w - 1 - int j)"
    if "length xs \<le> j" "j < 32768" for j
  proof -
    have "min (length xs) 32768 \<le> j \<and> j < 32768" using that by simp
    with h show ?thesis by blast
  qed
qed

lemma ring_slot_cong: "a mod 32768 = b mod 32768 \<Longrightarrow> ring_slot a = ring_slot b"
  by (simp add: ring_slot_eq_iff)

lemma ring_slot_uint: "w < CIRC_BUF_SAMPLES \<Longrightarrow> ring_slot (uint w) = unat w"
  by (simp add: ring_slot_alt CIRC_BUF_SAMPLES_def word_less_def)

lemma ring_slot_back_neq:
  assumes "0 < j" and "j < 32768"
  shows "ring_slot (a - int j) \<noteq> ring_slot a"
proof
  assume "ring_slot (a - int j) = ring_slot a"
  then have "(a - int j) mod 32768 = a mod 32768"
    by (simp add: ring_slot_eq_iff)
  then have "(32768 :: int) dvd (a - (a - int j))"
    by (metis mod_eq_dvd_iff)
  then have "(32768 :: int) dvd int j" by simp
  then have "32768 \<le> int j"
    using assms(1) by (intro zdvd_imp_le) simp_all
  with assms(2) show False by simp
qed

lemma holds_last_written_refl:
  assumes "length buf = unat CIRC_BUF_SAMPLES" and "w < CIRC_BUF_SAMPLES"
  shows "holds_last_written buf w [] buf w"
  using assms by (simp add: holds_last_written_def CIRC_BUF_SAMPLES_def word_less_def)

lemma holds_last_written_single:
  assumes len: "length buf = unat CIRC_BUF_SAMPLES" and w: "w < CIRC_BUF_SAMPLES"
  shows "holds_last_written buf w [x] (buf[unat w := ucast x]) ((w + 1) AND CIRC_BUF_MASK)"
proof -
  let ?w' = "(w + 1) AND CIRC_BUF_MASK"
  have w_lt: "uint w < 32768"
    using w by (simp add: CIRC_BUF_SAMPLES_def word_less_def)
  have w': "uint ?w' = (uint w + 1) mod 32768"
    using w_lt by (simp add: uint_and_CIRC_BUF_MASK uint_word_ariths)
  have slot: "ring_slot (uint ?w' - 1 - int j) = ring_slot (uint w - int j)" for j
    by (rule ring_slot_cong) (simp add: w' mod_back_shift)
  have here: "ring_slot (uint w) = unat w"
    using w by (rule ring_slot_uint)
  have in_range: "unat w < length buf"
    using w len by (simp add: word_less_nat_alt)
  have other: "ring_slot (uint w - int j) \<noteq> unat w" if "0 < j" "j < 32768" for j
    using ring_slot_back_neq [OF that, of "uint w"] here by simp
  show ?thesis
    unfolding holds_last_written_def
  proof (intro conjI allI impI)
    show "length (buf[unat w := ucast x]) = unat CIRC_BUF_SAMPLES"
      using len by simp
    show "uint ?w' = (uint w + int (length [x])) mod uint CIRC_BUF_SAMPLES"
      by (simp add: w' CIRC_BUF_SAMPLES_def)
  next
    fix j assume "j < min (length [x]) (unat CIRC_BUF_SAMPLES)"
    then have "j = 0" by simp
    then show "buf[unat w := ucast x] ! ring_slot (uint ?w' - 1 - int j)
                 = ucast ([x] ! (length [x] - 1 - j))"
      using in_range slot [of 0] by (simp add: here)
  next
    fix j assume "min (length [x]) (unat CIRC_BUF_SAMPLES) \<le> j \<and> j < unat CIRC_BUF_SAMPLES"
    then have "0 < j" "j < 32768"
      by (simp_all add: CIRC_BUF_SAMPLES_def)
    then show "buf[unat w := ucast x] ! ring_slot (uint ?w' - 1 - int j)
                 = buf ! ring_slot (uint ?w' - 1 - int j)"
      using other [of j] by (simp add: slot)
  qed
qed

lemma holds_last_written_trans:
  assumes a: "holds_last_written buf0 w0 xs buf1 w1"
    and b: "holds_last_written buf1 w1 ys buf2 w2"
  shows "holds_last_written buf0 w0 (xs @ ys) buf2 w2"
proof -
  let ?k1 = "length xs" and ?k2 = "length ys"
  have w1: "uint w1 = (uint w0 + int ?k1) mod 32768"
    using a by (rule holds_last_writtenD)
  have w2: "uint w2 = (uint w1 + int ?k2) mod 32768"
    using b by (rule holds_last_writtenD)
  have new: "buf2 ! ring_slot (uint w2 - 1 - int j) = ucast (ys ! (?k2 - 1 - j))"
    if "j < ?k2" "j < 32768" for j
    using b that by (rule holds_last_writtenD)
  have keep: "buf2 ! ring_slot (uint w2 - 1 - int j) = buf1 ! ring_slot (uint w2 - 1 - int j)"
    if "?k2 \<le> j" "j < 32768" for j
    using b that by (rule holds_last_writtenD)
  have shift: "ring_slot (uint w2 - 1 - int j) = ring_slot (uint w1 - 1 - int (j - ?k2))"
    if "?k2 \<le> j" for j
  proof -
    have "uint w1 + int ?k2 - 1 - int j = uint w1 - 1 - int (j - ?k2)"
      using that by (simp add: of_nat_diff)
    moreover have "(uint w2 - 1 - int j) mod 32768 = (uint w1 + int ?k2 - 1 - int j) mod 32768"
      by (simp only: w2 mod_back_shift)
    ultimately show ?thesis
      by (intro ring_slot_cong) (simp only:)
  qed
  have old: "buf1 ! ring_slot (uint w1 - 1 - int i) = ucast (xs ! (?k1 - 1 - i))"
    if "i < ?k1" "i < 32768" for i
    using a that by (rule holds_last_writtenD)
  have keep0: "buf1 ! ring_slot (uint w1 - 1 - int i) = buf0 ! ring_slot (uint w1 - 1 - int i)"
    if "?k1 \<le> i" "i < 32768" for i
    using a that by (rule holds_last_writtenD)
  show ?thesis
    unfolding holds_last_written_def
  proof (intro conjI allI impI)
    show "length buf2 = unat CIRC_BUF_SAMPLES"
      using holds_last_writtenD(1) [OF b] by (simp add: CIRC_BUF_SAMPLES_def)
    show "uint w2 = (uint w0 + int (length (xs @ ys))) mod uint CIRC_BUF_SAMPLES"
      by (simp add: w2 w1 CIRC_BUF_SAMPLES_def mod_simps add.assoc)
  next
    fix j assume "j < min (length (xs @ ys)) (unat CIRC_BUF_SAMPLES)"
    then have j: "j < ?k1 + ?k2" "j < 32768"
      by (simp_all add: CIRC_BUF_SAMPLES_def)
    show "buf2 ! ring_slot (uint w2 - 1 - int j) = ucast ((xs @ ys) ! (length (xs @ ys) - 1 - j))"
    proof (cases "j < ?k2")
      case True
      then have "length (xs @ ys) - 1 - j = ?k1 + (?k2 - 1 - j)"
        by simp
      then have "(xs @ ys) ! (length (xs @ ys) - 1 - j) = ys ! (?k2 - 1 - j)"
        by (simp only: nth_append_length_plus)
      then show ?thesis
        using new [OF True j(2)] by simp
    next
      case False
      then have ge: "?k2 \<le> j" by simp
      have i: "j - ?k2 < ?k1" "j - ?k2 < 32768"
        using j ge by simp_all
      have "length (xs @ ys) - 1 - j = ?k1 - 1 - (j - ?k2)" "?k1 - 1 - (j - ?k2) < ?k1"
        using j ge by simp_all
      then have "(xs @ ys) ! (length (xs @ ys) - 1 - j) = xs ! (?k1 - 1 - (j - ?k2))"
        by (simp only: nth_append_left)
      then show ?thesis
        using keep [OF ge j(2)] old [OF i] by (simp add: shift [OF ge])
    qed
  next
    fix j assume "min (length (xs @ ys)) (unat CIRC_BUF_SAMPLES) \<le> j \<and> j < unat CIRC_BUF_SAMPLES"
    then have "min (?k1 + ?k2) 32768 \<le> j" "j < 32768"
      by (simp_all add: CIRC_BUF_SAMPLES_def)
    then have j: "?k1 + ?k2 \<le> j" "j < 32768"
      by linarith+
    then have ge: "?k2 \<le> j" and i: "?k1 \<le> j - ?k2" "j - ?k2 < 32768"
      by simp_all
    show "buf2 ! ring_slot (uint w2 - 1 - int j) = buf0 ! ring_slot (uint w2 - 1 - int j)"
      using keep [OF ge j(2)] keep0 [OF i] by (simp add: shift [OF ge])
  qed
qed

lemma holds_last_written_cursor:
  assumes "holds_last_written buf0 w0 xs buf w"
  shows "w < CIRC_BUF_SAMPLES"
proof -
  have "uint w < 32768"
    by (simp add: holds_last_writtenD(2) [OF assms])
  then show ?thesis
    by (simp add: CIRC_BUF_SAMPLES_def word_less_def)
qed

lemma frame_loop_holds:
  assumes "length buf = unat CIRC_BUF_SAMPLES" and "pos < CIRC_BUF_SAMPLES"
  shows "\<exists>buf' pos' vs'. frame_loop cal xs buf pos vs cnt = Inr (buf', pos', vs', cnt + of_nat (length xs))
           \<and> holds_last_written buf pos xs buf' pos'"
  using assms
proof (induction xs arbitrary: buf pos vs cnt)
  case Nil
  then show ?case
    by (simp add: holds_last_written_refl)
next
  case (Cons x xs)
  let ?buf = "buf[unat pos := ucast x]" and ?pos = "(pos + 1) AND CIRC_BUF_MASK"
  have one: "holds_last_written buf pos [x] ?buf ?pos"
    using Cons.prems by (rule holds_last_written_single)
  then have inv: "length ?buf = unat CIRC_BUF_SAMPLES" "?pos < CIRC_BUF_SAMPLES"
    using Cons.prems(1) holds_last_written_cursor by simp_all
  have in_range: "unat pos < length buf"
    using Cons.prems by (simp add: word_less_nat_alt)
  obtain vs1 where step: "frame_loop cal (x # xs) buf pos vs cnt = frame_loop cal xs ?buf ?pos vs1 (cnt + 1)"
    using in_range by (simp add: Let_def)
  obtain buf' pos' vs' where
    rest: "frame_loop cal xs ?buf ?pos vs1 (cnt + 1) = Inr (buf', pos', vs', cnt + 1 + of_nat (length xs))"
      and held: "holds_last_written ?buf ?pos xs buf' pos'"
    using Cons.IH [OF inv, of vs1 "cnt + 1"] by blast
  have "holds_last_written buf pos ([x] @ xs) buf' pos'"
    using one held by (rule holds_last_written_trans)
  then show ?case
    using step rest by (simp add: add.assoc add.commute)
qed


lemma ingest_frame_holds:
  assumes "length (circ_buf st) = unat CIRC_BUF_SAMPLES" and "circ_buf_wr st < CIRC_BUF_SAMPLES"
  shows "\<exists>buf' pos' vs'.
           ingest_frame cal st frame =
             Inr (st\<lparr> circ_buf := buf', circ_buf_wr := pos',
                      s_voltage_sum := s_voltage_sum st + vs',
                      s_sample_count := s_sample_count st + of_nat (length frame) \<rparr>)
           \<and> holds_last_written (circ_buf st) (circ_buf_wr st) frame buf' pos'"
proof -
  obtain buf' pos' vs' where
    "frame_loop cal frame (circ_buf st) (circ_buf_wr st) 0 0 = Inr (buf', pos', vs', 0 + of_nat (length frame))"
    and "holds_last_written (circ_buf st) (circ_buf_wr st) frame buf' pos'"
    using frame_loop_holds [OF assms] by blast
  then show ?thesis
    by (auto simp: ingest_frame_def)
qed

lemma ingest_frames_holds:
  assumes "length (circ_buf st) = unat CIRC_BUF_SAMPLES" and "circ_buf_wr st < CIRC_BUF_SAMPLES"
  shows "\<exists>st'. ingest_frames cal st frames = Inr st'
           \<and> holds_last_written (circ_buf st) (circ_buf_wr st) (concat frames) (circ_buf st') (circ_buf_wr st')
           \<and> trigger_seen st' = trigger_seen st \<and> capture_complete st' = capture_complete st
           \<and> task_notify st' = task_notify st"
  using assms
proof (induction frames arbitrary: st)
  case Nil
  then show ?case
    by (simp add: holds_last_written_refl)
next
  case (Cons frame frames)
  obtain buf1 pos1 vs1 where
    one: "ingest_frame cal st frame =
            Inr (st\<lparr> circ_buf := buf1, circ_buf_wr := pos1, s_voltage_sum := s_voltage_sum st + vs1,
                     s_sample_count := s_sample_count st + of_nat (length frame) \<rparr>)"
    and held1: "holds_last_written (circ_buf st) (circ_buf_wr st) frame buf1 pos1"
    using ingest_frame_holds [OF Cons.prems] by blast
  let ?st1 = "st\<lparr> circ_buf := buf1, circ_buf_wr := pos1, s_voltage_sum := s_voltage_sum st + vs1,
                   s_sample_count := s_sample_count st + of_nat (length frame) \<rparr>"
  have inv1: "length (circ_buf ?st1) = unat CIRC_BUF_SAMPLES" "circ_buf_wr ?st1 < CIRC_BUF_SAMPLES"
    using holds_last_writtenD(1) [OF held1] holds_last_written_cursor [OF held1]
    by (simp_all add: CIRC_BUF_SAMPLES_def)
  obtain st' where
    rest: "ingest_frames cal ?st1 frames = Inr st'"
    and held2: "holds_last_written (circ_buf ?st1) (circ_buf_wr ?st1) (concat frames) (circ_buf st') (circ_buf_wr st')"
    and flags: "trigger_seen st' = trigger_seen ?st1" "capture_complete st' = capture_complete ?st1"
      "task_notify st' = task_notify ?st1"
    using Cons.IH [OF inv1] by blast
  have "holds_last_written (circ_buf st) (circ_buf_wr st) (frame @ concat frames) (circ_buf st') (circ_buf_wr st')"
    using held1 held2 by (auto intro: holds_last_written_trans)
  then show ?case
    using one rest flags by simp
qed

lemma export_loop_no_CircBufFault:
  "length buf = unat CIRC_BUF_SAMPLES \<Longrightarrow> export_loop buf start total_samples i out \<noteq> Inl CircBufFault"
proof (induction buf start total_samples i out rule: export_loop.induct)
  case (1 buf start total_samples i out)
  have src: "unat ((start + i) AND CIRC_BUF_MASK) < length buf"
    using "1.prems" by (simp add: unat_and_CIRC_BUF_MASK_less)
  show ?case
  proof (cases "i < total_samples \<and> i < CIRC_BUF_SAMPLES")
    case False
    then have "export_loop buf start total_samples i out = Inr out"
      by (simp only: export_loop.simps [of buf start total_samples i out] if_False)
    then show ?thesis
      by simp
  next
    case True
    show ?thesis
    proof (cases "unat i < length out")
      case False
      with True src show ?thesis
        by (simp add: export_loop.simps [of buf start total_samples i out] Let_def)
    next
      case in_out: True
      have "export_loop buf start total_samples (i + 1)
              (out[unat i := buf ! unat ((start + i) AND CIRC_BUF_MASK)]) \<noteq> Inl CircBufFault"
        using "1.IH" [OF True refl _ _ "1.prems"] src in_out by simp
      with True src in_out show ?thesis
        by (simp add: export_loop.simps [of buf start total_samples i out] Let_def)
    qed
  qed
qed


text \<open>
  Claim C4. One write stores its sample at slot \<open>W & (N - 1)\<close> and advances the
  cursor to \<open>(W + 1) & (N - 1)\<close>. Any sequence of frames, \<open>k\<close> samples in all,
  is ingested without a fault, wraparound included; afterwards the cursor has advanced
  by \<open>k\<close> modulo \<open>N\<close>, the \<open>j\<close>-th slot behind it holds the \<open>j\<close>-th
  last written sample for every \<open>j < min k N\<close>, and the other slots are unchanged.
\<close>

theorem ring_buffer_writes:
  assumes "length (circ_buf st) = unat CIRC_BUF_SAMPLES" and "circ_buf_wr st < CIRC_BUF_SAMPLES"
  shows "(\<exists>st1. ingest_frame cal st [x] = Inr st1
            \<and> circ_buf st1 = (circ_buf st)[unat (circ_buf_wr st AND CIRC_BUF_MASK) := ucast x]
            \<and> circ_buf_wr st1 = (circ_buf_wr st + 1) AND CIRC_BUF_MASK)
       \<and> (\<exists>st'. ingest_frames cal st frames = Inr st'
            \<and> length (circ_buf st') = unat CIRC_BUF_SAMPLES
            \<and> uint (circ_buf_wr st') =
                (uint (circ_buf_wr st) + int (length (concat frames))) mod uint CIRC_BUF_SAMPLES
            \<and> (\<forall>j < min (length (concat frames)) (unat CIRC_BUF_SAMPLES).
                  circ_buf st' ! ring_slot (uint (circ_buf_wr st') - 1 - int j)
                    = ucast (concat frames ! (length (concat frames) - 1 - j)))
            \<and> (\<forall>j. min (length (concat frames)) (unat CIRC_BUF_SAMPLES) \<le> j \<and> j < unat CIRC_BUF_SAMPLES \<longrightarrow>
                  circ_buf st' ! ring_slot (uint (circ_buf_wr st') - 1 - int j)
                    = circ_buf st ! ring_slot (uint (circ_buf_wr st') - 1 - int j)))"
proof
  have "unat (circ_buf_wr st) < 32768"
    using assms(2) by (simp add: word_less_nat_alt CIRC_BUF_SAMPLES_def)
  then have masked: "unat (circ_buf_wr st AND CIRC_BUF_MASK) = unat (circ_buf_wr st)"
    by (simp add: unat_and_CIRC_BUF_MASK)
  have "unat (circ_buf_wr st) < length (circ_buf st)"
    using assms by (simp add: word_less_nat_alt)
  then show "\<exists>st1. ingest_frame cal st [x] = Inr st1
            \<and> circ_buf st1 = (circ_buf st)[unat (circ_buf_wr st AND CIRC_BUF_MASK) := ucast x]
            \<and> circ_buf_wr st1 = (circ_buf_wr st + 1) AND CIRC_BUF_MASK"
    by (simp add: ingest_frame_def masked Let_def)
next
  obtain st' where run: "ingest_frames cal st frames = Inr st'"
    and held: "holds_last_written (circ_buf st) (circ_buf_wr st) (concat frames) (circ_buf st') (circ_buf_wr st')"
    using ingest_frames_holds [OF assms] by blast
  show "\<exists>st'. ingest_frames cal st frames = Inr st'
            \<and> length (circ_buf st') = unat CIRC_BUF_SAMPLES
            \<and> uint (circ_buf_wr st') =
                (uint (circ_buf_wr st) + int (length (concat frames))) mod uint CIRC_BUF_SAMPLES
            \<and> (\<forall>j < min (length (concat frames)) (unat CIRC_BUF_SAMPLES).
                  circ_buf st' ! ring_slot (uint (circ_buf_wr st') - 1 - int j)
                    = ucast (concat frames ! (length (concat frames) - 1 - j)))
            \<and> (\<forall>j. min (length (concat frames)) (unat CIRC_BUF_SAMPLES) \<le> j \<and> j < unat CIRC_BUF_SAMPLES \<longrightarrow>
                  circ_buf st' ! ring_slot (uint (circ_buf_wr st') - 1 - int j)
                    = circ_buf st ! ring_slot (uint (circ_buf_wr st') - 1 - int j))"
    using run held [unfolded holds_last_written_def] by blast
qed

lemma app_init_inv:
  "length (circ_buf app_init) = unat CIRC_BUF_SAMPLES" "circ_buf_wr app_init < CIRC_BUF_SAMPLES"
  by (simp_all add: app_init_def CIRC_BUF_SAMPLES_def)

theorem ring_buffer_writes_witness:
  "length (circ_buf app_init) = unat CIRC_BUF_SAMPLES \<and> circ_buf_wr app_init < CIRC_BUF_SAMPLES
   \<and> (\<exists>st'. ingest_frames None app_init [[11, 12], [13]] = Inr st'
         \<and> circ_buf_wr st' = 3
         \<and> circ_buf st' ! 2 = 13 \<and> circ_buf st' ! 1 = 12 \<and> circ_buf st' ! 0 = 11
         \<and> circ_buf st' ! 32767 = 0)"
proof -
  let ?frames = "[[11, 12], [13 :: u32]]"
  obtain st' where run: "ingest_frames None app_init ?frames = Inr st'"
    and wr: "uint (circ_buf_wr st') =
                (uint (circ_buf_wr app_init) + int (length (concat ?frames))) mod uint CIRC_BUF_SAMPLES"
    and new: "\<forall>j < min (length (concat ?frames)) (unat CIRC_BUF_SAMPLES).
                  circ_buf st' ! ring_slot (uint (circ_buf_wr st') - 1 - int j)
                    = ucast (concat ?frames ! (length (concat ?frames) - 1 - j))"
    and old: "\<forall>j. min (length (concat ?frames)) (unat CIRC_BUF_SAMPLES) \<le> j \<and> j < unat CIRC_BUF_SAMPLES \<longrightarrow>
                  circ_buf st' ! ring_slot (uint (circ_buf_wr st') - 1 - int j)
                    = circ_buf app_init ! ring_slot (uint (circ_buf_wr st') - 1 - int j)"
    using ring_buffer_writes [OF app_init_inv, of None 0 ?frames] by blast
  have n: "unat CIRC_BUF_SAMPLES = 32768" "uint CIRC_BUF_SAMPLES = 32768"
    by (simp_all add: CIRC_BUF_SAMPLES_def)
  have w: "uint (circ_buf_wr st') = 3"
    using wr by (simp add: n app_init_def)
  then have w3: "circ_buf_wr st' = 3"
    by (simp add: word_uint_eq_iff)
  have "circ_buf st' ! ring_slot (3 - 1 - int 0) = ucast (concat ?frames ! (3 - 1 - 0))"
    using new [rule_format, of 0] by (simp add: n w)
  then have s2: "circ_buf st' ! 2 = 13"
    by (simp add: ring_slot_alt)
  have "circ_buf st' ! ring_slot (3 - 1 - int 1) = ucast (concat ?frames ! (3 - 1 - 1))"
    using new [rule_format, of 1] by (simp add: n w)
  then have s1: "circ_buf st' ! 1 = 12"
    by (simp add: ring_slot_alt)
  have "circ_buf st' ! ring_slot (3 - 1 - int 2) = ucast (concat ?frames ! (3 - 1 - 2))"
    using new [rule_format, of 2] by (simp add: n w)
  then have s0: "circ_buf st' ! 0 = 11"
    by (simp add: ring_slot_alt)
  have "circ_buf st' ! ring_slot (3 - 1 - int 3) = circ_buf app_init ! ring_slot (3 - 1 - int 3)"
    using old [rule_format, of 3] by (simp add: n w)
  then have s_old: "circ_buf st' ! 32767 = 0"
    by (simp add: ring_slot_alt app_init_def n)
  show ?thesis
    using app_init_inv run w3 s2 s1 s0 s_old by blast
qed

text \<open>
  Claim C10. The write cursor starts below \<open>CIRC_BUF_SAMPLES\<close> and stays below it
  after every frame, being masked after each sample; so the frame loop and the export
  copy, also inside the trigger handler, never index outside \<open>circ_buf\<close>,
  whatever the frames and the export arguments.
\<close>

theorem circ_buf_in_bounds:
  assumes "length (circ_buf st) = unat CIRC_BUF_SAMPLES" and "circ_buf_wr st < CIRC_BUF_SAMPLES"
  shows "(\<exists>st'. ingest_frames cal st frames = Inr st'
            \<and> length (circ_buf st') = unat CIRC_BUF_SAMPLES \<and> circ_buf_wr st' < CIRC_BUF_SAMPLES)
       \<and> export_circular_buffer st out pre_samples total_samples \<noteq> Inl CircBufFault
       \<and> handle_trigger_capture cal frames export_buffer st pre_samples post_samples \<noteq> Inl CircBufFault
       \<and> (\<forall>st' r. handle_trigger_capture cal frames export_buffer st pre_samples post_samples = Inr (st', r)
            \<longrightarrow> length (circ_buf st') = unat CIRC_BUF_SAMPLES \<and> circ_buf_wr st' < CIRC_BUF_SAMPLES)"
proof (intro conjI)
  have inv_after: "\<exists>st'. ingest_frames cal s frames = Inr st'
            \<and> length (circ_buf st') = unat CIRC_BUF_SAMPLES \<and> circ_buf_wr st' < CIRC_BUF_SAMPLES"
    if inv_s: "length (circ_buf s) = unat CIRC_BUF_SAMPLES" "circ_buf_wr s < CIRC_BUF_SAMPLES" for s
  proof -
    obtain st' where "ingest_frames cal s frames = Inr st'"
      and held: "holds_last_written (circ_buf s) (circ_buf_wr s) (concat frames) (circ_buf st') (circ_buf_wr st')"
      using ingest_frames_holds [OF inv_s] by blast
    moreover have "length (circ_buf st') = unat CIRC_BUF_SAMPLES"
      using holds_last_writtenD(1) [OF held] by (simp add: CIRC_BUF_SAMPLES_def)
    moreover have "circ_buf_wr st' < CIRC_BUF_SAMPLES"
      using held by (rule holds_last_written_cursor)
    ultimately show ?thesis by blast
  qed
  show "\<exists>st'. ingest_frames cal st frames = Inr st'
            \<and> length (circ_buf st') = unat CIRC_BUF_SAMPLES \<and> circ_buf_wr st' < CIRC_BUF_SAMPLES"
    using assms by (rule inv_after)
  have no_fault: "export_circular_buffer s b p t \<noteq> Inl CircBufFault"
    if "length (circ_buf s) = unat CIRC_BUF_SAMPLES" for s b p t
    using that by (simp add: export_circular_buffer_def export_loop_no_CircBufFault)
  show "export_circular_buffer st out pre_samples total_samples \<noteq> Inl CircBufFault"
    using assms(1) by (rule no_fault)
  obtain st1 where run: "ingest_frames cal (st\<lparr> trigger_seen := True \<rparr>) frames = Inr st1"
    and inv1: "length (circ_buf st1) = unat CIRC_BUF_SAMPLES" "circ_buf_wr st1 < CIRC_BUF_SAMPLES"
    using inv_after [of "st\<lparr> trigger_seen := True \<rparr>"] assms by auto
  show "handle_trigger_capture cal frames export_buffer st pre_samples post_samples \<noteq> Inl CircBufFault"
    using run no_fault [OF inv1(1)]
    by (auto simp: handle_trigger_capture_def split: option.splits sum.splits)
  show "\<forall>st' r. handle_trigger_capture cal frames export_buffer st pre_samples post_samples = Inr (st', r)
            \<longrightarrow> length (circ_buf st') = unat CIRC_BUF_SAMPLES \<and> circ_buf_wr st' < CIRC_BUF_SAMPLES"
    using run inv1 assms
    by (auto simp: handle_trigger_capture_def split: option.splits sum.splits if_splits)
qed

theorem circ_buf_in_bounds_witness:
  "length (circ_buf app_init) = unat CIRC_BUF_SAMPLES \<and> circ_buf_wr app_init < CIRC_BUF_SAMPLES
   \<and> (\<exists>st'. ingest_frames None app_init [[1, 2, 3]] = Inr st'
         \<and> length (circ_buf st') = unat CIRC_BUF_SAMPLES \<and> circ_buf_wr st' < CIRC_BUF_SAMPLES)
   \<and> export_circular_buffer app_init [] 70000 80000 \<noteq> Inl CircBufFault
   \<and> handle_trigger_capture None [[1, 2, 3]] None app_init 70000 80000 \<noteq> Inl CircBufFault"
  using circ_buf_in_bounds [OF app_init_inv, of None "[[1, 2, 3]]" "[]" 70000 80000 None 80000] app_init_inv
  by blast

section \<open>Exporting what was written\<close>

lemma holds_last_written_newest:
  assumes held: "holds_last_written buf0 w0 xs buf w"
    and pre: "unat pre \<le> length xs" "unat pre \<le> 32768"
  shows "take (unat pre) (logical_window buf (uint w - uint (pre :: size_t)) (unat pre + m))
           = map ucast (drop (length xs - unat pre) xs)"
proof (rule nth_equalityI)
  show "length (take (unat pre) (logical_window buf (uint w - uint pre) (unat pre + m)))
          = length (map ucast (drop (length xs - unat pre) xs) :: u16 list)"
    using pre by (simp add: logical_window_def)
next
  fix i assume "i < length (take (unat pre) (logical_window buf (uint w - uint pre) (unat pre + m)))"
  then have i: "i < unat pre"
    by (simp add: logical_window_def)
  let ?j = "unat pre - 1 - i"
  have j: "?j < length xs" "?j < 32768"
    using i pre by simp_all
  have "int ?j = uint pre - 1 - int i"
    using i by (simp add: of_nat_diff)
  then have idx: "uint w - uint pre + int i = uint w - 1 - int ?j"
    by simp
  have "take (unat pre) (logical_window buf (uint w - uint pre) (unat pre + m)) ! i
          = buf ! ring_slot (uint w - uint pre + int i)"
    using i by (simp add: logical_window_def)
  also have "\<dots> = buf ! ring_slot (uint w - 1 - int ?j)"
    by (simp only: idx)
  also have "\<dots> = ucast (xs ! (length xs - 1 - ?j))"
    using held j by (rule holds_last_writtenD)
  also have "length xs - 1 - ?j = length xs - unat pre + i"
    using i pre by simp
  finally show "take (unat pre) (logical_window buf (uint w - uint pre) (unat pre + m)) ! i
                  = map ucast (drop (length xs - unat pre) xs) ! i"
    using i pre by simp
qed

lemma logical_window_drop:
  "drop a (logical_window buf first (a + b)) = map (\<lambda>k. buf ! ring_slot (first + int a + int k)) [0..<b]"
proof (rule nth_equalityI)
  show "length (drop a (logical_window buf first (a + b)))
          = length (map (\<lambda>k. buf ! ring_slot (first + int a + int k)) [0..<b])"
    by (simp add: logical_window_def)
next
  fix i assume "i < length (drop a (logical_window buf first (a + b)))"
  then have i: "i < b"
    by (simp add: logical_window_def)
  show "drop a (logical_window buf first (a + b)) ! i
               = map (\<lambda>k. buf ! ring_slot (first + int a + int k)) [0..<b] ! i"
    using i by (simp add: logical_window_def add.assoc)
qed

lemma holds_last_written_ahead:
  assumes held: "holds_last_written buf0 w0 xs buf w" and k: "k < 32768"
  shows "buf ! ring_slot (uint w + int k) =
           (if 32768 \<le> length xs + k then ucast (xs ! (length xs + k - 32768))
            else buf0 ! ring_slot (uint w + int k))"
proof -
  let ?j = "32768 - 1 - k"
  have j: "?j < 32768"
    by simp
  have "int ?j = 32767 - int k"
    using k by (simp add: of_nat_diff)
  then have "uint w - 1 - int ?j = uint w + int k - 32768"
    by simp
  also have "\<dots> mod 32768 = (uint w + int k) mod 32768"
    by simp
  finally have slot: "ring_slot (uint w - 1 - int ?j) = ring_slot (uint w + int k)"
    by (rule ring_slot_cong)
  show ?thesis
  proof (cases "32768 \<le> length xs + k")
    case True
    then have "?j < length xs"
      using k by simp
    then have "buf ! ring_slot (uint w - 1 - int ?j) = ucast (xs ! (length xs - 1 - ?j))"
      using j by (rule holds_last_writtenD(3) [OF held])
    moreover have "length xs - 1 - ?j = length xs + k - 32768"
      using True k by simp
    ultimately show ?thesis
      using True by (simp only: slot if_True)
  next
    case False
    then have "length xs \<le> ?j"
      by simp
    then have "buf ! ring_slot (uint w - 1 - int ?j) = buf0 ! ring_slot (uint w - 1 - int ?j)"
      using j by (rule holds_last_writtenD(4) [OF held])
    then show ?thesis
      using False by (simp only: slot if_False)
  qed
qed

text \<open>
  Claim C1 does not hold of the code. The export starts at
  \<open>(W - pre_count) & (N - 1)\<close>, taken from the snapshot of the cursor \<open>W\<close>, and
  copies \<open>pre_count + post_count\<close> samples through the mask, also across the
  wraparound boundary. But \<open>W\<close> is the slot the next sample will be written to.
  The first \<open>pre_count\<close> cells are the newest samples of the history, in the
  order they were written. The \<open>post_count\<close> cells that follow are read from the
  slots at and after the cursor, which hold no sample written after \<open>W\<close>: cell
  \<open>k\<close> of them is the sample written \<open>N - k\<close> samples before the snapshot, the
  oldest the ring still has, or, when fewer than \<open>N - k\<close> samples were written,
  what the slot held before the first write. The caller's buffer has
  \<open>pre_count + post_count\<close> cells.
\<close>

theorem export_post_half_stale:
  assumes "length (circ_buf st0) = unat CIRC_BUF_SAMPLES" and "circ_buf_wr st0 < CIRC_BUF_SAMPLES"
    and "ingest_frames cal st0 frames = Inr st"
    and "unat pre_count + unat post_count \<le> unat CIRC_BUF_SAMPLES"
    and "length out = unat pre_count + unat post_count"
    and "unat pre_count \<le> length (concat frames)"
  shows "export_circular_buffer st out pre_count (pre_count + post_count) =
           Inr (map ucast (drop (length (concat frames) - unat pre_count) (concat frames))
                @ map (\<lambda>k. if unat CIRC_BUF_SAMPLES \<le> length (concat frames) + k
                            then ucast (concat frames ! (length (concat frames) + k - unat CIRC_BUF_SAMPLES))
                            else circ_buf st0 ! ring_slot (uint (circ_buf_wr st) + int k))
                    [0..<unat post_count])"
proof -
  let ?xs = "concat frames"
  let ?win = "logical_window (circ_buf st) (uint (circ_buf_wr st) - uint pre_count)
                (unat pre_count + unat post_count)"
  have n: "unat CIRC_BUF_SAMPLES = 32768"
    by (simp add: CIRC_BUF_SAMPLES_def)
  have held: "holds_last_written (circ_buf st0) (circ_buf_wr st0) ?xs (circ_buf st) (circ_buf_wr st)"
    using ingest_frames_holds [OF assms(1,2), of cal frames] assms(3) by simp
  then have len: "length (circ_buf st) = unat CIRC_BUF_SAMPLES"
    using holds_last_writtenD(1) [OF held] by (simp add: CIRC_BUF_SAMPLES_def)
  have "unat pre_count + unat post_count < 2 ^ 32"
    using assms(4) by (simp add: CIRC_BUF_SAMPLES_def)
  then have total: "unat (pre_count + post_count) = unat pre_count + unat post_count"
    by (simp add: unat_word_ariths)
  have "export_circular_buffer st out pre_count (pre_count + post_count) =
          Inr (?win @ drop (unat pre_count + unat post_count) out)"
    by (rule export_circular_buffer_result [OF len]) (use assms(4,5) total in simp_all)
  then have export: "export_circular_buffer st out pre_count (pre_count + post_count) = Inr ?win"
    using assms(5) by simp
  have small: "unat pre_count \<le> 32768"
    using assms(4) by (simp add: CIRC_BUF_SAMPLES_def)
  have pre: "take (unat pre_count) ?win = map ucast (drop (length ?xs - unat pre_count) ?xs)"
    using held assms(6) small by (rule holds_last_written_newest)
  have "int (unat pre_count) = uint pre_count"
    by (simp only: uint_nat)
  then have "uint (circ_buf_wr st) - uint pre_count + int (unat pre_count) + int k = uint (circ_buf_wr st) + int k" for k
    by (simp only: diff_add_cancel)
  then have "drop (unat pre_count) ?win =
               map (\<lambda>k. circ_buf st ! ring_slot (uint (circ_buf_wr st) + int k)) [0..<unat post_count]"
    by (simp only: logical_window_drop)
  also have "\<dots> = map (\<lambda>k. if unat CIRC_BUF_SAMPLES \<le> length ?xs + k
                            then ucast (?xs ! (length ?xs + k - unat CIRC_BUF_SAMPLES))
                            else circ_buf st0 ! ring_slot (uint (circ_buf_wr st) + int k))
                    [0..<unat post_count]"
  proof (rule map_cong [OF refl])
    fix k assume "k \<in> set [0..<unat post_count]"
    then have "k < 32768"
      using assms(4) by (simp add: CIRC_BUF_SAMPLES_def)
    with held show "circ_buf st ! ring_slot (uint (circ_buf_wr st) + int k) =
        (if unat CIRC_BUF_SAMPLES \<le> length ?xs + k
         then ucast (?xs ! (length ?xs + k - unat CIRC_BUF_SAMPLES))
         else circ_buf st0 ! ring_slot (uint (circ_buf_wr st) + int k))"
      unfolding n by (rule holds_last_written_ahead)
  qed
  finally have post: "drop (unat pre_count) ?win =
      map (\<lambda>k. if unat CIRC_BUF_SAMPLES \<le> length ?xs + k
                then ucast (?xs ! (length ?xs + k - unat CIRC_BUF_SAMPLES))
                else circ_buf st0 ! ring_slot (uint (circ_buf_wr st) + int k))
        [0..<unat post_count]" .
  have "?win = take (unat pre_count) ?win @ drop (unat pre_count) ?win"
    by (simp only: append_take_drop_id)
  then show ?thesis
    by (simp only: export pre post)
qed

theorem export_post_half_stale_witness:
  "length (circ_buf app_init) = unat CIRC_BUF_SAMPLES \<and> circ_buf_wr app_init < CIRC_BUF_SAMPLES
   \<and> unat (4 :: size_t) + unat (4 :: size_t) \<le> unat CIRC_BUF_SAMPLES
   \<and> length (replicate 8 (9 :: u16)) = unat (4 :: size_t) + unat (4 :: size_t)
   \<and> unat (4 :: size_t) \<le> length (concat [map of_nat [0..<32772] :: u32 list])
   \<and> (\<exists>st. ingest_frames None app_init [map of_nat [0..<32772]] = Inr st
          \<and> export_circular_buffer st (replicate 8 9) 4 (4 + 4) =
              Inr [32768, 32769, 32770, 32771, 4, 5, 6, 7])
   \<and> unat (2 :: size_t) + unat (3 :: size_t) \<le> unat CIRC_BUF_SAMPLES
   \<and> length (replicate 5 (9 :: u16)) = unat (2 :: size_t) + unat (3 :: size_t)
   \<and> unat (2 :: size_t) \<le> length (concat [[11, 12, 13], [14, 15 :: u32]])
   \<and> ingest_frames None app_init [[11, 12, 13], [14, 15]] =
        Inr \<lparr> circ_buf = (replicate 32768 0)[0 := 11, 1 := 12, 2 := 13, 3 := 14, 4 := 15], circ_buf_wr = 5,
               s_voltage_sum = 0, s_sample_count = 5,
               trigger_seen = False, capture_complete = False, task_notify = 0 \<rparr>
   \<and> export_circular_buffer
        \<lparr> circ_buf = (replicate 32768 0)[0 := 11, 1 := 12, 2 := 13, 3 := 14, 4 := 15], circ_buf_wr = 5,
          s_voltage_sum = 0, s_sample_count = 5,
          trigger_seen = False, capture_complete = False, task_notify = 0 \<rparr>
        (replicate 5 9) 2 (2 + 3) = Inr [14, 15, 0, 0, 0]"
proof -
  let ?long = "[map of_nat [0..<32772] :: u32 list]"
  let ?short = "[[11, 12, 13], [14, 15 :: u32]]"
  let ?final = "\<lparr> circ_buf = (replicate 32768 (0 :: u16))[0 := 11, 1 := 12, 2 := 13, 3 := 14, 4 := 15],
               circ_buf_wr = 5 :: size_t, s_voltage_sum = 0 :: u64, s_sample_count = 5 :: u32,
               trigger_seen = False, capture_complete = False, task_notify = 0 :: u32 \<rparr>"
  have n: "unat CIRC_BUF_SAMPLES = 32768"
    by (simp add: CIRC_BUF_SAMPLES_def)
  have a4: "unat (4 :: size_t) + unat (4 :: size_t) \<le> unat CIRC_BUF_SAMPLES"
    and a5: "length (replicate 8 (9 :: u16)) = unat (4 :: size_t) + unat (4 :: size_t)"
    and a6: "unat (4 :: size_t) \<le> length (concat ?long)"
    by (simp_all add: n)
  have b4: "unat (2 :: size_t) + unat (3 :: size_t) \<le> unat CIRC_BUF_SAMPLES"
    and b5: "length (replicate 5 (9 :: u16)) = unat (2 :: size_t) + unat (3 :: size_t)"
    and b6: "unat (2 :: size_t) \<le> length (concat ?short)"
    by (simp_all add: n)
  have b3: "ingest_frames None app_init ?short = Inr ?final"
    by (simp add: app_init_def ingest_frame_def CIRC_BUF_SAMPLES_def CIRC_BUF_MASK_def)
  have three: "[0..<3] = [0, 1, 2 :: nat]" and four: "[0..<4] = [0, 1, 2, 3 :: nat]"
    by (simp_all add: upt_rec)
  obtain st where a3: "ingest_frames None app_init ?long = Inr st"
    using ingest_frames_holds [OF app_init_inv, of None ?long] by blast
  have "export_circular_buffer st (replicate 8 9) 4 (4 + 4) = Inr [32768, 32769, 32770, 32771, 4, 5, 6, 7]"
    using export_post_half_stale [OF app_init_inv a3 a4 a5 a6]
    by (simp add: n four drop_map)
  moreover have "export_circular_buffer ?final (replicate 5 9) 2 (2 + 3) = Inr [14, 15, 0, 0, 0]"
    using export_post_half_stale [OF app_init_inv b3 b4 b5 b6]
    by (simp add: n three app_init_def ring_slot_alt)
  ultimately show ?thesis
    using app_init_inv a3 a4 a5 a6 b3 b4 b5 b6 by blast
qed

section \<open>The trigger handler and the driver callbacks\<close>

text \<open>
  Claim C5 does not hold of the code. Between setting \<^verbatim>\<open>trigger_seen\<close> and the
  export copy the handler only sleeps for 100 ms; it counts no samples. Whatever
  frames are ingested during the delay, none, fewer or more samples than the
  post-trigger count, the handler goes on to export and marks the capture complete.
\<close>

theorem trigger_export_ignores_sample_count:
  assumes "length (circ_buf st) = unat CIRC_BUF_SAMPLES" and "circ_buf_wr st < CIRC_BUF_SAMPLES"
    and "\<not> trigger_seen st"
    and "unat pre_count + unat post_count \<le> unat CIRC_BUF_SAMPLES"
    and "length out = unat pre_count + unat post_count"
  shows "\<exists>st1 out'. ingest_frames cal (st\<lparr> trigger_seen := True \<rparr>) delay_frames = Inr st1
           \<and> export_circular_buffer st1 out pre_count (pre_count + post_count) = Inr out'
           \<and> handle_trigger_capture cal delay_frames (Some out) st pre_count post_count =
               Inr (st1\<lparr> capture_complete := True, trigger_seen := False \<rparr>, Some out')"
proof -
  obtain st1 where run: "ingest_frames cal (st\<lparr> trigger_seen := True \<rparr>) delay_frames = Inr st1"
    and held: "holds_last_written (circ_buf (st\<lparr> trigger_seen := True \<rparr>)) (circ_buf_wr (st\<lparr> trigger_seen := True \<rparr>))
                 (concat delay_frames) (circ_buf st1) (circ_buf_wr st1)"
    using ingest_frames_holds [of "st\<lparr> trigger_seen := True \<rparr>" cal delay_frames] assms(1,2) by auto
  have len1: "length (circ_buf st1) = unat CIRC_BUF_SAMPLES"
    using holds_last_writtenD(1) [OF held] by (simp add: CIRC_BUF_SAMPLES_def)
  have "unat pre_count + unat post_count < 2 ^ 32"
    using assms(4) by (simp add: CIRC_BUF_SAMPLES_def)
  then have total: "unat (pre_count + post_count) = unat pre_count + unat post_count"
    by (simp add: unat_word_ariths)
  have "export_circular_buffer st1 out pre_count (pre_count + post_count) =
          Inr (logical_window (circ_buf st1) (uint (circ_buf_wr st1) - uint pre_count)
                 (unat pre_count + unat post_count) @ drop (unat pre_count + unat post_count) out)"
    by (rule export_circular_buffer_result [OF len1]) (use assms(4,5) total in simp_all)
  then show ?thesis
    using run assms(3) by (simp add: handle_trigger_capture_def)
qed

theorem trigger_export_ignores_sample_count_witness:
  "length (circ_buf app_init) = unat CIRC_BUF_SAMPLES \<and> circ_buf_wr app_init < CIRC_BUF_SAMPLES
   \<and> \<not> trigger_seen app_init
   \<and> unat (4 :: size_t) + unat (4 :: size_t) \<le> unat CIRC_BUF_SAMPLES
   \<and> length (replicate 8 (9 :: u16)) = unat (4 :: size_t) + unat (4 :: size_t)
   \<and> length (concat [[5 :: u32]]) < unat (4 :: size_t)
   \<and> handle_trigger_capture None [[5]] (Some (replicate 8 9)) app_init 4 4 =
       Inr (\<lparr> circ_buf = (replicate 32768 0)[0 := 5], circ_buf_wr = 1,
               s_voltage_sum = 0, s_sample_count = 1,
               trigger_seen = False, capture_complete = True, task_notify = 0 \<rparr>,
            Some [0, 0, 0, 5, 0, 0, 0, 0])
   \<and> unat (2 :: size_t) + unat (3 :: size_t) \<le> unat CIRC_BUF_SAMPLES
   \<and> length (replicate 5 (9 :: u16)) = unat (2 :: size_t) + unat (3 :: size_t)
   \<and> unat (3 :: size_t) < length (concat [[21, 22], [23, 24, 25, 26, 27 :: u32]])
   \<and> handle_trigger_capture None [[21, 22], [23, 24, 25, 26, 27]] (Some (replicate 5 9)) app_init 2 3 =
       Inr (\<lparr> circ_buf = (replicate 32768 0)[0 := 21, 1 := 22, 2 := 23, 3 := 24, 4 := 25, 5 := 26, 6 := 27],
               circ_buf_wr = 7, s_voltage_sum = 0, s_sample_count = 7,
               trigger_seen = False, capture_complete = True, task_notify = 0 \<rparr>,
            Some [26, 27, 0, 0, 0])"
proof -
  let ?few = "\<lparr> circ_buf = (replicate 32768 (0 :: u16))[0 := 5], circ_buf_wr = 1 :: size_t,
               s_voltage_sum = 0 :: u64, s_sample_count = 1 :: u32,
               trigger_seen = True, capture_complete = False, task_notify = 0 :: u32 \<rparr>"
  let ?many = "\<lparr> circ_buf = (replicate 32768 (0 :: u16))[0 := 21, 1 := 22, 2 := 23, 3 := 24, 4 := 25, 5 := 26, 6 := 27],
               circ_buf_wr = 7 :: size_t, s_voltage_sum = 0 :: u64, s_sample_count = 7 :: u32,
               trigger_seen = True, capture_complete = False, task_notify = 0 :: u32 \<rparr>"
  have h3: "\<not> trigger_seen app_init"
    by (simp add: app_init_def)
  have a4: "unat (4 :: size_t) + unat (4 :: size_t) \<le> unat CIRC_BUF_SAMPLES"
    and a5: "length (replicate 8 (9 :: u16)) = unat (4 :: size_t) + unat (4 :: size_t)"
    and b4: "unat (2 :: size_t) + unat (3 :: size_t) \<le> unat CIRC_BUF_SAMPLES"
    and b5: "length (replicate 5 (9 :: u16)) = unat (2 :: size_t) + unat (3 :: size_t)"
    by (simp_all add: CIRC_BUF_SAMPLES_def)
  have counts: "length (concat [[5 :: u32]]) < unat (4 :: size_t)"
    "unat (3 :: size_t) < length (concat [[21, 22], [23, 24, 25, 26, 27 :: u32]])"
    by simp_all
  have run_few: "ingest_frames None (app_init\<lparr> trigger_seen := True \<rparr>) [[5]] = Inr ?few"
    by (simp add: app_init_def ingest_frame_def CIRC_BUF_SAMPLES_def CIRC_BUF_MASK_def)
  have run_many: "ingest_frames None (app_init\<lparr> trigger_seen := True \<rparr>) [[21, 22], [23, 24, 25, 26, 27]] = Inr ?many"
    by (simp add: app_init_def ingest_frame_def CIRC_BUF_SAMPLES_def CIRC_BUF_MASK_def)
  have eight: "[0..<8] = [0, 1, 2, 3, 4, 5, 6, 7 :: nat]" and five: "[0..<5] = [0, 1, 2, 3, 4 :: nat]"
    by (simp_all add: upt_rec)
  have "export_circular_buffer ?few (replicate 8 9) 4 (4 + 4) =
          Inr (logical_window (circ_buf ?few) (uint (circ_buf_wr ?few) - uint (4 :: size_t)) 8
               @ drop 8 (replicate 8 9))"
    by (rule export_circular_buffer_result) (simp_all add: CIRC_BUF_SAMPLES_def)
  then have out_few: "export_circular_buffer ?few (replicate 8 9) 4 (4 + 4) = Inr [0, 0, 0, 5, 0, 0, 0, 0]"
    by (simp add: logical_window_def ring_slot_alt eight)
  have "export_circular_buffer ?many (replicate 5 9) 2 (2 + 3) =
          Inr (logical_window (circ_buf ?many) (uint (circ_buf_wr ?many) - uint (2 :: size_t)) 5
               @ drop 5 (replicate 5 9))"
    by (rule export_circular_buffer_result) (simp_all add: CIRC_BUF_SAMPLES_def)
  then have out_many: "export_circular_buffer ?many (replicate 5 9) 2 (2 + 3) = Inr [26, 27, 0, 0, 0]"
    by (simp add: logical_window_def ring_slot_alt five)
  obtain s1 o1 where
    "ingest_frames None (app_init\<lparr> trigger_seen := True \<rparr>) [[5]] = Inr s1"
    "export_circular_buffer s1 (replicate 8 9) 4 (4 + 4) = Inr o1"
    "handle_trigger_capture None [[5]] (Some (replicate 8 9)) app_init 4 4 =
       Inr (s1\<lparr> capture_complete := True, trigger_seen := False \<rparr>, Some o1)"
    using trigger_export_ignores_sample_count [OF app_init_inv h3 a4 a5, of None "[[5]]"] by blast
  then have few: "handle_trigger_capture None [[5]] (Some (replicate 8 9)) app_init 4 4 =
       Inr (?few\<lparr> capture_complete := True, trigger_seen := False \<rparr>, Some [0, 0, 0, 5, 0, 0, 0, 0])"
    using run_few out_few by simp
  obtain s2 o2 where
    "ingest_frames None (app_init\<lparr> trigger_seen := True \<rparr>) [[21, 22], [23, 24, 25, 26, 27]] = Inr s2"
    "export_circular_buffer s2 (replicate 5 9) 2 (2 + 3) = Inr o2"
    "handle_trigger_capture None [[21, 22], [23, 24, 25, 26, 27]] (Some (replicate 5 9)) app_init 2 3 =
       Inr (s2\<lparr> capture_complete := True, trigger_seen := False \<rparr>, Some o2)"
    using trigger_export_ignores_sample_count [OF app_init_inv h3 b4 b5, of None "[[21, 22], [23, 24, 25, 26, 27]]"]
    by blast
  then have many: "handle_trigger_capture None [[21, 22], [23, 24, 25, 26, 27]] (Some (replicate 5 9)) app_init 2 3 =
       Inr (?many\<lparr> capture_complete := True, trigger_seen := False \<rparr>, Some [26, 27, 0, 0, 0])"
    using run_many out_many by simp
  show ?thesis
    using app_init_inv h3 a4 a5 b4 b5 counts few many by simp
qed

text \<open>
  Claim C7 does not hold of the code: the pool-overflow callback does exactly what the
  conversion-done callback does, one more task notification, and changes no counter
  or flag by which an overflow could be told from data being ready.
\<close>

theorem pool_overflow_same_as_conv_done:
  "s_pool_ovf_cb woken st = s_conv_done_cb woken st
   \<and> s_pool_ovf_cb False app_init = (app_init\<lparr> task_notify := 1 \<rparr>, False)"
  by (simp add: s_pool_ovf_cb_def s_conv_done_cb_def app_init_def)

section \<open>The trapezoidal filter\<close>

subsection \<open>Walking backwards\<close>

lemma back_index_less: "0 < buffer_size \<Longrightarrow> back_index buffer_size pos j < unat buffer_size"
proof -
  assume "0 < buffer_size"
  then have pos: "0 < uint buffer_size"
    by (simp add: word_less_def)
  then have "(uint pos - int j) mod uint buffer_size < uint buffer_size"
    by simp
  moreover have "0 \<le> (uint pos - int j) mod uint buffer_size"
    using pos by simp
  ultimately have "nat ((uint pos - int j) mod uint buffer_size) < nat (uint buffer_size)"
    by (simp only: nat_less_eq_zless)
  then show ?thesis
    by (simp add: back_index_def)
qed

lemma back_index_0: "pos < buffer_size \<Longrightarrow> back_index buffer_size pos 0 = unat pos"
  by (simp add: back_index_def word_less_def)

lemma uint_pred:
  fixes w :: size_t
  assumes "w \<noteq> 0"
  shows "uint (w - 1) = uint w - 1"
proof -
  have "0 < w"
    using assms by (simp add: word_neq_0_conv)
  then have "0 < uint w"
    by (simp add: word_less_def)
  then show ?thesis
    by (simp add: uint_sub_if')
qed

lemma step_back_uint:
  assumes "pos < buffer_size"
  shows "uint (step_back buffer_size pos) = (uint pos - 1) mod uint buffer_size"
proof (cases "pos = 0")
  case True
  then have "buffer_size \<noteq> 0"
    using assms by auto
  then have "uint (buffer_size - 1) = uint buffer_size - 1"
    by (rule uint_pred)
  moreover have "0 < uint buffer_size"
    using assms by (simp add: word_less_def True)
  then have "(- 1) mod uint buffer_size = uint buffer_size - 1"
    by (simp add: zmod_minus1)
  ultimately show ?thesis
    using True by (simp add: step_back_def)
next
  case False
  then have "uint (pos - 1) = uint pos - 1"
    by (rule uint_pred)
  moreover have "0 < pos"
    using False by (simp add: word_neq_0_conv)
  then have "0 \<le> uint pos - 1" "uint pos - 1 < uint buffer_size"
    using assms by (simp_all add: word_less_def)
  ultimately show ?thesis
    using False by (simp add: step_back_def)
qed


lemma step_back_less:
  assumes "pos < buffer_size"
  shows "step_back buffer_size pos < buffer_size"
proof -
  have "0 < uint buffer_size"
    using assms by (simp add: word_less_def) (use uint_ge_0 [of pos] in linarith)
  then have "(uint pos - 1) mod uint buffer_size < uint buffer_size"
    by simp
  then show ?thesis
    by (simp add: word_less_def step_back_uint [OF assms])
qed

lemma back_index_shift:
  assumes "uint q = (uint pos - int off) mod uint buffer_size"
  shows "back_index buffer_size q j = back_index buffer_size pos (off + j)"
proof -
  have "(uint q - int j) mod uint buffer_size = (uint pos - int off - int j) mod uint buffer_size"
    by (simp only: assms mod_diff_left_eq)
  then show ?thesis
    by (simp add: back_index_def diff_diff_eq)
qed

lemma back_index_uint:
  assumes "0 < buffer_size"
  shows "int (back_index buffer_size pos j) = (uint pos - int j) mod uint buffer_size"
proof -
  have "0 < uint buffer_size"
    using assms by (simp add: word_less_def)
  then have "0 \<le> (uint pos - int j) mod uint buffer_size"
    by simp
  then show ?thesis
    by (simp add: back_index_def)
qed

lemma sum_list_upt_Suc_shift:
  fixes f :: "nat \<Rightarrow> 'a :: comm_monoid_add"
  shows "(\<Sum>j\<leftarrow>[Suc a..<Suc b]. f j) = (\<Sum>j\<leftarrow>[a..<b]. f (Suc j))"
proof -
  have "map f [Suc a..<Suc b] = map (\<lambda>j. f (Suc j)) [a..<b]"
    by (simp only: map_Suc_upt [symmetric] map_map comp_def)
  then show ?thesis by simp
qed

lemma filter_sum_loop_result:
  assumes "length buffer = unat buffer_size" and "pos < buffer_size"
  shows "\<exists>pos'. filter_sum_loop buffer buffer_size n pos acc =
                  Inr (acc + (\<Sum>j\<leftarrow>[1..<Suc n]. ucast (buffer ! back_index buffer_size pos j)), pos')
               \<and> pos' < buffer_size
               \<and> uint pos' = (uint pos - int n) mod uint buffer_size"
  using assms(2)
proof (induction n arbitrary: pos acc)
  case 0
  then show ?case
    by (simp add: word_less_def)
next
  case (Suc n)
  let ?p = "step_back buffer_size pos"
  let ?f = "\<lambda>j. (ucast (buffer ! back_index buffer_size pos j) :: i32)"
  have p_less: "?p < buffer_size"
    using Suc.prems by (rule step_back_less)
  have p_uint: "uint ?p = (uint pos - int 1) mod uint buffer_size"
    using step_back_uint [OF Suc.prems] by simp
  have idx: "back_index buffer_size ?p j = back_index buffer_size pos (Suc j)" for j
    using back_index_shift [OF p_uint, of j] by simp
  have p_idx: "unat ?p = back_index buffer_size pos 1"
    using back_index_0 [OF p_less] idx [of 0] by simp
  have in_range: "unat ?p < length buffer"
    using p_less assms(1) by (simp add: word_less_nat_alt)
  obtain pos' where
    ih: "filter_sum_loop buffer buffer_size n ?p (acc + ucast (buffer ! unat ?p)) =
           Inr (acc + ucast (buffer ! unat ?p)
                  + (\<Sum>j\<leftarrow>[1..<Suc n]. ucast (buffer ! back_index buffer_size ?p j)), pos')"
    and less: "pos' < buffer_size"
    and at: "uint pos' = (uint ?p - int n) mod uint buffer_size"
    using Suc.IH [OF p_less] by blast
  have "[1..<Suc (Suc n)] = 1 # [Suc 1..<Suc (Suc n)]"
    by (rule upt_conv_Cons) simp
  then have "(\<Sum>j\<leftarrow>[1..<Suc (Suc n)]. ?f j) = ?f 1 + (\<Sum>j\<leftarrow>[Suc 1..<Suc (Suc n)]. ?f j)"
    by (simp only: list.map sum_list.Cons)
  also have "(\<Sum>j\<leftarrow>[Suc 1..<Suc (Suc n)]. ?f j) = (\<Sum>j\<leftarrow>[1..<Suc n]. ?f (Suc j))"
    by (rule sum_list_upt_Suc_shift)
  finally have split: "(\<Sum>j\<leftarrow>[1..<Suc (Suc n)]. ?f j) = ?f 1 + (\<Sum>j\<leftarrow>[1..<Suc n]. ?f (Suc j))" .
  have final: "uint pos' = (uint pos - int (Suc n)) mod uint buffer_size"
  proof -
    have "(uint ?p - int n) mod uint buffer_size = (uint pos - int 1 - int n) mod uint buffer_size"
      by (simp only: p_uint mod_diff_left_eq)
    then show ?thesis
      by (simp add: at diff_diff_eq)
  qed
  have unfold: "filter_sum_loop buffer buffer_size (Suc n) pos acc =
                  filter_sum_loop buffer buffer_size n ?p (acc + ucast (buffer ! unat ?p))"
    using in_range by (simp add: Let_def)
  have val: "acc + ucast (buffer ! unat ?p)
               + (\<Sum>j\<leftarrow>[1..<Suc n]. ucast (buffer ! back_index buffer_size ?p j))
             = acc + (\<Sum>j\<leftarrow>[1..<Suc (Suc n)]. ?f j)"
    by (simp only: split idx p_idx add.assoc)
  have "filter_sum_loop buffer buffer_size (Suc n) pos acc =
          Inr (acc + (\<Sum>j\<leftarrow>[1..<Suc (Suc n)]. ?f j), pos')"
    by (simp only: unfold ih val)
  with less final show ?case
    by blast
qed

lemma filter_sum_step_result:
  assumes "length buffer = unat buffer_size" and "pos < buffer_size"
  shows "\<exists>pos'. filter_sum_step buffer buffer_size pos R =
                  Inr (lobe_sum buffer buffer_size pos 0 (Suc (nat (R - 1))), pos')
               \<and> pos' < buffer_size
               \<and> uint pos' = (uint pos - int (nat (R - 1))) mod uint buffer_size"
proof -
  let ?n = "nat (R - 1)"
  let ?f = "\<lambda>j. (ucast (buffer ! back_index buffer_size pos j) :: i32)"
  obtain pos' where
    loop: "filter_sum_loop buffer buffer_size ?n pos (ucast (buffer ! unat pos)) =
             Inr (ucast (buffer ! unat pos) + (\<Sum>j\<leftarrow>[1..<Suc ?n]. ?f j), pos')"
    and rest: "pos' < buffer_size" "uint pos' = (uint pos - int ?n) mod uint buffer_size"
    using filter_sum_loop_result [OF assms] by blast
  have "[0..<Suc ?n] = 0 # [Suc 0..<Suc ?n]"
    by (rule upt_conv_Cons) simp
  then have "(\<Sum>j\<leftarrow>[0..<Suc ?n]. ?f j) = ?f 0 + (\<Sum>j\<leftarrow>[1..<Suc ?n]. ?f j)"
    by (simp only: list.map sum_list.Cons One_nat_def)
  then have "lobe_sum buffer buffer_size pos 0 (Suc ?n) =
               ucast (buffer ! unat pos) + (\<Sum>j\<leftarrow>[1..<Suc ?n]. ?f j)"
    by (simp add: lobe_sum_def back_index_0 [OF assms(2)] del: upt_Suc)
  moreover have "unat pos < length buffer"
    using assms by (simp add: word_less_nat_alt)
  ultimately have "filter_sum_step buffer buffer_size pos R =
                     Inr (lobe_sum buffer buffer_size pos 0 (Suc ?n), pos')"
    using loop by (simp add: filter_sum_step_def)
  with rest show ?thesis
    by blast
qed


lemma sint_i32_of_int:
  assumes "- 2147483648 \<le> z" and "z < 2147483648"
  shows "sint (word_of_int z :: i32) = z"
proof -
  have "signed_take_bit 31 z = z"
    using assms by (intro signed_take_bit_int_eq_self) simp_all
  then show ?thesis
    by (simp add: sint_sbintrunc')
qed

lemma ucast_sum_list:
  "(\<Sum>j\<leftarrow>js. ucast (g j :: u16) :: i32) = word_of_int (\<Sum>j\<leftarrow>js. uint (g j))"
  by (induction js) simp_all

lemma u16_sum_list_bound:
  "(\<Sum>j\<leftarrow>js. uint (g j :: u16)) \<le> 65535 * int (length js)"
proof (induction js)
  case Nil
  then show ?case by simp
next
  case (Cons j js)
  have "uint (g j) < 2 ^ 16"
    using uint_lt2p [of "g j"] by simp
  then have "uint (g j) \<le> 65535"
    by simp
  with Cons show ?case
    by (simp add: algebra_simps)
qed

lemma u16_sum_list_nonneg: "0 \<le> (\<Sum>j\<leftarrow>js. uint (g j :: u16))"
  by (induction js) simp_all

lemma sint_ucast_sum_list:
  assumes "length js \<le> 32768"
  shows "sint (\<Sum>j\<leftarrow>js. ucast (g j :: u16) :: i32) = (\<Sum>j\<leftarrow>js. uint (g j))"
proof -
  have "(\<Sum>j\<leftarrow>js. uint (g j)) \<le> 65535 * int (length js)"
    by (rule u16_sum_list_bound)
  also have "\<dots> \<le> 65535 * 32768"
    using assms by simp
  finally have "(\<Sum>j\<leftarrow>js. uint (g j)) < 2147483648"
    by simp
  moreover have "- 2147483648 \<le> (\<Sum>j\<leftarrow>js. uint (g j))"
    using u16_sum_list_nonneg [of g js] by simp
  ultimately show ?thesis
    by (simp only: ucast_sum_list sint_i32_of_int)
qed

text \<open>
  Claim C9. For a buffer of \<open>buffer_size \<ge> 1\<close> slots, a position
  \<open>pos < buffer_size\<close> and a rate \<open>R \<ge> 1\<close>, \<open>filter_sum_step\<close> returns the
  sum of the \<open>R\<close> samples at \<open>pos, pos - 1, \<dots>, pos - (R - 1)\<close>, each modulo
  \<open>buffer_size\<close>, and leaves the position at \<open>(pos - (R - 1)) mod buffer_size\<close>.
  The sum is the \<^verbatim>\<open>int32_t\<close> the function returns; up to \<open>R = 32768\<close> samples
  of 16 bits it cannot overflow and is the exact sum.
\<close>

theorem filter_sum_step_sum:
  assumes "1 \<le> R" and "length buffer = unat buffer_size" and "pos < buffer_size"
  shows "\<exists>pos'. filter_sum_step buffer buffer_size pos R =
                  Inr ((\<Sum>j\<leftarrow>[0..<nat R]. ucast (buffer ! back_index buffer_size pos j)), pos')
               \<and> unat pos' = back_index buffer_size pos (nat R - 1)
               \<and> (R \<le> 32768 \<longrightarrow>
                    sint (\<Sum>j\<leftarrow>[0..<nat R]. ucast (buffer ! back_index buffer_size pos j) :: i32)
                      = (\<Sum>j\<leftarrow>[0..<nat R]. uint (buffer ! back_index buffer_size pos j)))"
proof -
  have r1: "Suc (nat (R - 1)) = nat R" and r2: "nat (R - 1) = nat R - 1"
    using assms(1) by simp_all
  obtain pos' where
    run: "filter_sum_step buffer buffer_size pos R =
            Inr (lobe_sum buffer buffer_size pos 0 (Suc (nat (R - 1))), pos')"
    and at: "uint pos' = (uint pos - int (nat (R - 1))) mod uint buffer_size"
    using filter_sum_step_result [OF assms(2,3)] by blast
  have "uint pos < uint buffer_size"
    using assms(3) by (simp add: word_less_def)
  then have "0 < uint buffer_size"
    using uint_ge_0 [of pos] by linarith
  then have "0 < buffer_size"
    by (simp add: word_less_def)
  then have "int (back_index buffer_size pos (nat R - 1))
               = (uint pos - int (nat R - 1)) mod uint buffer_size"
    by (rule back_index_uint)
  also have "\<dots> = int (unat pos')"
    by (simp only: at r2 uint_nat [symmetric])
  finally have stop: "unat pos' = back_index buffer_size pos (nat R - 1)"
    by (simp only: of_nat_eq_iff)
  have exact: "sint (\<Sum>j\<leftarrow>[0..<nat R]. ucast (buffer ! back_index buffer_size pos j) :: i32)
                 = (\<Sum>j\<leftarrow>[0..<nat R]. uint (buffer ! back_index buffer_size pos j))"
    if "R \<le> 32768"
    using that by (intro sint_ucast_sum_list) simp
  have "filter_sum_step buffer buffer_size pos R =
          Inr ((\<Sum>j\<leftarrow>[0..<nat R]. ucast (buffer ! back_index buffer_size pos j)), pos')"
    using run by (simp only: r1 lobe_sum_def add_0)
  with stop exact show ?thesis
    by blast
qed

theorem filter_sum_step_sum_witness:
  "(1 :: int) \<le> 3 \<and> length [10, 20, 30, 40 :: u16] = unat (4 :: size_t) \<and> (1 :: size_t) < 4
   \<and> filter_sum_step [10, 20, 30, 40] 4 1 3 = Inr (70, 3)"
proof -
  have h: "(1 :: int) \<le> 3" "length [10, 20, 30, 40 :: u16] = unat (4 :: size_t)" "(1 :: size_t) < 4"
    by simp_all
  obtain pos' where
    run: "filter_sum_step [10, 20, 30, 40] 4 1 3 =
            Inr ((\<Sum>j\<leftarrow>[0..<nat 3]. ucast ([10, 20, 30, 40 :: u16] ! back_index 4 1 j)), pos')"
    and stop: "unat pos' = back_index 4 1 (nat 3 - 1)"
    using filter_sum_step_sum [OF h] by blast
  have "[0..<nat 3] = [0, 1, 2]"
    by (simp add: upt_rec)
  then have sum: "(\<Sum>j\<leftarrow>[0..<nat 3]. ucast ([10, 20, 30, 40 :: u16] ! back_index 4 1 j)) = (70 :: i32)"
    by (simp add: back_index_def)
  have "unat pos' = unat (3 :: size_t)"
    using stop by (simp add: back_index_def)
  then have "pos' = 3"
    by (simp only: word_unat_eq_iff)
  with run sum h show ?thesis
    by simp
qed

subsection \<open>The filter step\<close>

lemma mod_back_twice: "((a - b) mod n - c) mod n = (a - (b + c)) mod (n :: int)"
proof -
  have "((a - b) mod n - c) mod n = (a - b - c) mod n"
    by (rule mod_diff_left_eq)
  then show ?thesis
    by (simp only: diff_diff_eq)
qed

lemma shift_loop_result:
  assumes "pos < buffer_size"
  shows "shift_loop buffer_size n pos < buffer_size
       \<and> uint (shift_loop buffer_size n pos) = (uint pos - int n) mod uint buffer_size"
  using assms
proof (induction n arbitrary: pos)
  case 0
  then show ?case
    by (simp add: word_less_def)
next
  case (Suc n)
  let ?p = "step_back buffer_size pos"
  have less: "?p < buffer_size"
    using Suc.prems by (rule step_back_less)
  have "uint (shift_loop buffer_size n ?p) = ((uint pos - 1) mod uint buffer_size - int n) mod uint buffer_size"
    using Suc.IH [OF less] step_back_uint [OF Suc.prems] by simp
  also have "\<dots> = (uint pos - (1 + int n)) mod uint buffer_size"
    by (rule mod_back_twice)
  finally show ?case
    using Suc.IH [OF less] by simp
qed

lemma shift_loop_at:
  assumes "q < buffer_size" and "uint q = (uint pos - int off) mod uint buffer_size"
  shows "shift_loop buffer_size d q < buffer_size
       \<and> uint (shift_loop buffer_size d q) = (uint pos - int (off + d)) mod uint buffer_size"
proof -
  have "uint (shift_loop buffer_size d q) = ((uint pos - int off) mod uint buffer_size - int d) mod uint buffer_size"
    using shift_loop_result [OF assms(1), of d] assms(2) by simp
  also have "\<dots> = (uint pos - (int off + int d)) mod uint buffer_size"
    by (rule mod_back_twice)
  finally show ?thesis
    using shift_loop_result [OF assms(1), of d] by simp
qed

lemma lobe_sum_shift:
  assumes "uint q = (uint pos - int off) mod uint buffer_size"
  shows "lobe_sum buffer buffer_size q 0 r = lobe_sum buffer buffer_size pos off r"
  by (simp add: lobe_sum_def back_index_shift [OF assms])

lemma filter_sum_step_at:
  assumes "length buffer = unat buffer_size" and "q < buffer_size"
    and "uint q = (uint pos - int off) mod uint buffer_size"
  shows "\<exists>q'. filter_sum_step buffer buffer_size q R =
                 Inr (lobe_sum buffer buffer_size pos off (Suc (nat (R - 1))), q')
              \<and> q' < buffer_size
              \<and> uint q' = (uint pos - int (off + nat (R - 1))) mod uint buffer_size"
proof -
  obtain q' where
    run: "filter_sum_step buffer buffer_size q R =
            Inr (lobe_sum buffer buffer_size q 0 (Suc (nat (R - 1))), q')"
    and less: "q' < buffer_size"
    and at: "uint q' = (uint q - int (nat (R - 1))) mod uint buffer_size"
    using filter_sum_step_result [OF assms(1,2)] by blast
  have "uint q' = ((uint pos - int off) mod uint buffer_size - int (nat (R - 1))) mod uint buffer_size"
    using at assms(3) by simp
  also have "\<dots> = (uint pos - (int off + int (nat (R - 1)))) mod uint buffer_size"
    by (rule mod_back_twice)
  finally have "uint q' = (uint pos - int (off + nat (R - 1))) mod uint buffer_size"
    by simp
  with run less show ?thesis
    by (auto simp: lobe_sum_shift [OF assms(3)])
qed

lemma c_int_id:
  assumes "- 2147483648 \<le> z" and "z < 2147483648"
  shows "c_int z = z"
  unfolding c_int_def using assms by (rule sint_i32_of_int)

lemma trap_filter_step_first:
  assumes "length buffer = unat buffer_size" and "pos < buffer_size" and "\<not> initialized flt"
  shows "trap_filter_step L G R flt buffer buffer_size pos =
           Inr (flt\<lparr> buffer_pos := pos, initialized := True,
                     filter_value := lobe_sum buffer buffer_size pos 0 (Suc (nat (c_int R - 1))) \<rparr>,
                lobe_sum buffer buffer_size pos 0 (Suc (nat (c_int R - 1))))"
proof -
  obtain pos' where
    "filter_sum_step buffer buffer_size pos (c_int R) =
       Inr (lobe_sum buffer buffer_size pos 0 (Suc (nat (c_int R - 1))), pos')"
    using filter_sum_step_result [OF assms(1,2)] by blast
  then show ?thesis
    using assms(3) by (simp add: trap_filter_step_def)
qed

lemma trap_filter_step_update:
  assumes len: "length buffer = unat buffer_size" and pos: "pos < buffer_size"
    and init: "initialized flt"
  shows "trap_filter_step L G R flt buffer buffer_size pos =
           (let n = nat (c_int R - 1);
                o2 = n + nat (c_int (L - R + 1));
                o3 = o2 + n + nat (c_int (G - R + 1));
                o4 = o3 + n + nat (c_int (L - R + 1));
                v = filter_value flt
                      + (lobe_sum buffer buffer_size pos 0 (Suc n) - lobe_sum buffer buffer_size pos o2 (Suc n)
                         - lobe_sum buffer buffer_size pos o3 (Suc n) + lobe_sum buffer buffer_size pos o4 (Suc n))
            in Inr (flt\<lparr> buffer_pos := pos, filter_value := v,
                           samples_processed := samples_processed flt + 1 \<rparr>, v))"
proof -
  let ?n = "nat (c_int R - 1)" and ?dl = "nat (c_int (L - R + 1))" and ?dg = "nat (c_int (G - R + 1))"
  let ?o2 = "?n + ?dl"
  let ?o3 = "?o2 + ?n + ?dg"
  let ?o4 = "?o3 + ?n + ?dl"
  have start: "uint pos = (uint pos - int 0) mod uint buffer_size"
    using pos by (simp add: word_less_def)
  obtain p1 where
    s1: "filter_sum_step buffer buffer_size pos (c_int R) = Inr (lobe_sum buffer buffer_size pos 0 (Suc ?n), p1)"
    and p1: "p1 < buffer_size" "uint p1 = (uint pos - int (0 + ?n)) mod uint buffer_size"
    using filter_sum_step_at [OF len pos start] by blast
  let ?q2 = "shift_loop buffer_size ?dl p1"
  have q2: "?q2 < buffer_size" "uint ?q2 = (uint pos - int ?o2) mod uint buffer_size"
    using shift_loop_at [OF p1, of ?dl] by simp_all
  obtain p2 where
    s2: "filter_sum_step buffer buffer_size ?q2 (c_int R) = Inr (lobe_sum buffer buffer_size pos ?o2 (Suc ?n), p2)"
    and p2: "p2 < buffer_size" "uint p2 = (uint pos - int (?o2 + ?n)) mod uint buffer_size"
    using filter_sum_step_at [OF len q2] by blast
  let ?q3 = "shift_loop buffer_size ?dg p2"
  have q3: "?q3 < buffer_size" "uint ?q3 = (uint pos - int ?o3) mod uint buffer_size"
    using shift_loop_at [OF p2, of ?dg] by simp_all
  obtain p3 where
    s3: "filter_sum_step buffer buffer_size ?q3 (c_int R) = Inr (lobe_sum buffer buffer_size pos ?o3 (Suc ?n), p3)"
    and p3: "p3 < buffer_size" "uint p3 = (uint pos - int (?o3 + ?n)) mod uint buffer_size"
    using filter_sum_step_at [OF len q3] by blast
  let ?q4 = "shift_loop buffer_size ?dl p3"
  have q4: "?q4 < buffer_size" "uint ?q4 = (uint pos - int ?o4) mod uint buffer_size"
    using shift_loop_at [OF p3, of ?dl] by simp_all
  obtain p4 where
    s4: "filter_sum_step buffer buffer_size ?q4 (c_int R) = Inr (lobe_sum buffer buffer_size pos ?o4 (Suc ?n), p4)"
    using filter_sum_step_at [OF len q4] by blast
  have "trap_filter_step L G R flt buffer buffer_size pos =
          Inr (flt\<lparr> buffer_pos := pos,
                    filter_value := filter_value flt + lobe_sum buffer buffer_size pos 0 (Suc ?n)
                      - lobe_sum buffer buffer_size pos ?o2 (Suc ?n)
                      - lobe_sum buffer buffer_size pos ?o3 (Suc ?n)
                      + lobe_sum buffer buffer_size pos ?o4 (Suc ?n),
                    samples_processed := samples_processed flt + 1 \<rparr>,
               filter_value flt + lobe_sum buffer buffer_size pos 0 (Suc ?n)
                      - lobe_sum buffer buffer_size pos ?o2 (Suc ?n)
                      - lobe_sum buffer buffer_size pos ?o3 (Suc ?n)
                      + lobe_sum buffer buffer_size pos ?o4 (Suc ?n))"
    unfolding trap_filter_step_def Let_def
    by (simp only: init s1 s2 s3 s4 sum.case prod.case simp_thms if_False)
  then show ?thesis
    by (simp add: Let_def algebra_simps)
qed

lemma trap_filter_step_brute_force:
  assumes "1 \<le> R" and "R - 1 \<le> L" and "R - 1 \<le> G"
    and "L < 2147483648" and "G < 2147483648" and "R < 2147483648"
    and "length buffer = unat buffer_size" and "pos < buffer_size"
    and "initialized flt"
  shows "trap_filter_step L G R flt buffer buffer_size pos =
           Inr (flt\<lparr> buffer_pos := pos,
                     filter_value := filter_value flt + trap_brute_force L G R buffer buffer_size pos,
                     samples_processed := samples_processed flt + 1 \<rparr>,
                filter_value flt + trap_brute_force L G R buffer buffer_size pos)"
proof -
  have c: "c_int R = R" "c_int (L - R + 1) = L - R + 1" "c_int (G - R + 1) = G - R + 1"
    using assms(1-6) by (simp_all add: c_int_id)
  have r: "nat R = Suc (nat (R - 1))" "nat R - 1 = nat (R - 1)"
    using assms(1) by simp_all
  show ?thesis
    unfolding trap_filter_step_update [OF assms(7,8,9)] trap_brute_force_def Let_def r c
    by simp
qed

lemma trap_filter_steps_updates:
  assumes "1 \<le> R" and "R - 1 \<le> L" and "R - 1 \<le> G"
    and "L < 2147483648" and "G < 2147483648" and "R < 2147483648"
    and "initialized flt"
    and "\<forall>(b, p) \<in> set snaps. length b = unat buffer_size \<and> p < buffer_size"
  shows "\<exists>flt'. trap_filter_steps L G R flt buffer_size snaps = Inr flt'
           \<and> filter_value flt' =
               filter_value flt + (\<Sum>(b, p)\<leftarrow>snaps. trap_brute_force L G R b buffer_size p)
           \<and> initialized flt'
           \<and> samples_processed flt' = samples_processed flt + of_nat (length snaps)"
  using assms(7,8)
proof (induction snaps arbitrary: flt)
  case Nil
  then show ?case by simp
next
  case (Cons snap snaps)
  obtain b p where snap: "snap = (b, p)"
    by (cases snap)
  have valid: "length b = unat buffer_size" "p < buffer_size"
    using Cons.prems(2) snap by simp_all
  let ?flt = "flt\<lparr> buffer_pos := p,
                     filter_value := filter_value flt + trap_brute_force L G R b buffer_size p,
                     samples_processed := samples_processed flt + 1 \<rparr>"
  have step: "trap_filter_step L G R flt b buffer_size p =
                Inr (?flt, filter_value flt + trap_brute_force L G R b buffer_size p)"
    using assms(1-6) valid Cons.prems(1) by (rule trap_filter_step_brute_force)
  have "initialized ?flt"
    using Cons.prems(1) by simp
  moreover have "\<forall>(b, p) \<in> set snaps. length b = unat buffer_size \<and> p < buffer_size"
    using Cons.prems(2) by simp
  ultimately obtain flt' where
    rest: "trap_filter_steps L G R ?flt buffer_size snaps = Inr flt'"
    and val: "filter_value flt' =
                filter_value ?flt + (\<Sum>(b, p)\<leftarrow>snaps. trap_brute_force L G R b buffer_size p)"
    and more: "initialized flt'" "samples_processed flt' = samples_processed ?flt + of_nat (length snaps)"
    using Cons.IH [of ?flt] by blast
  show ?case
    using step rest val more by (simp add: snap add.assoc)
qed

lemma lobe_sum_replicate:
  assumes "0 < buffer_size"
  shows "lobe_sum (replicate (unat buffer_size) c) buffer_size pos off r = of_nat r * ucast c"
proof -
  have "map (\<lambda>j. (ucast (replicate (unat buffer_size) c ! back_index buffer_size pos (off + j)) :: i32)) [0..<r]
          = map (\<lambda>j. ucast c) [0..<r]"
    using back_index_less [OF assms] by simp
  then show ?thesis
    by (simp add: lobe_sum_def sum_list_replicate map_replicate_const)
qed

lemma trap_brute_force_shape:
  assumes "1 \<le> R" and "R - 1 \<le> L" and "R - 1 \<le> G"
  shows "trap_brute_force L G R buffer buffer_size pos =
           lobe_sum buffer buffer_size pos 0 (nat R)
           - lobe_sum buffer buffer_size pos (nat L) (nat R)
           - lobe_sum buffer buffer_size pos (nat L + nat G) (nat R)
           + lobe_sum buffer buffer_size pos (nat L + nat G + nat L) (nat R)"
proof -
  have a: "nat R - 1 + nat (L - R + 1) = nat L"
    using assms by linarith
  have b: "nat L + (nat R - 1) + nat (G - R + 1) = nat L + nat G"
    using assms by linarith
  have c: "nat L + nat G + (nat R - 1) + nat (L - R + 1) = nat L + nat G + nat L"
    using assms by linarith
  show ?thesis
    unfolding trap_brute_force_def Let_def by (simp only: a b c)
qed

lemma lobe_sum_front:
  "lobe_sum buffer buffer_size pos off (Suc n) =
     ucast (buffer ! back_index buffer_size pos off) + lobe_sum buffer buffer_size pos (Suc off) n"
proof -
  let ?f = "\<lambda>j. (ucast (buffer ! back_index buffer_size pos (off + j)) :: i32)"
  have "[0..<Suc n] = 0 # [Suc 0..<Suc n]"
    by (rule upt_conv_Cons) simp
  then have "(\<Sum>j\<leftarrow>[0..<Suc n]. ?f j) = ?f 0 + (\<Sum>j\<leftarrow>[Suc 0..<Suc n]. ?f j)"
    by (simp only: list.map sum_list.Cons)
  also have "(\<Sum>j\<leftarrow>[Suc 0..<Suc n]. ?f j) = (\<Sum>j\<leftarrow>[0..<n]. ?f (Suc j))"
    by (rule sum_list_upt_Suc_shift)
  finally show ?thesis
    by (simp add: lobe_sum_def del: upt_Suc)
qed

lemma lobe_sum_back:
  "lobe_sum buffer buffer_size pos off (Suc n) =
     lobe_sum buffer buffer_size pos off n + ucast (buffer ! back_index buffer_size pos (off + n))"
  by (simp add: lobe_sum_def)

lemma lobe_sum_slide:
  "lobe_sum buffer buffer_size pos off n - lobe_sum buffer buffer_size pos (Suc off) n =
     ucast (buffer ! back_index buffer_size pos off) - ucast (buffer ! back_index buffer_size pos (off + n))"
proof -
  have "ucast (buffer ! back_index buffer_size pos off) + lobe_sum buffer buffer_size pos (Suc off) n
          = lobe_sum buffer buffer_size pos off n + ucast (buffer ! back_index buffer_size pos (off + n))"
    by (simp only: lobe_sum_front [symmetric] lobe_sum_back [symmetric])
  then show ?thesis
    by (simp add: algebra_simps)
qed

lemma lobe_sum_slide_sum:
  "(\<Sum>j\<leftarrow>[0..<r]. lobe_sum buffer buffer_size pos (c + j) n - lobe_sum buffer buffer_size pos (Suc (c + j)) n)
     = lobe_sum buffer buffer_size pos c r - lobe_sum buffer buffer_size pos (c + n) r"
proof -
  let ?e = "\<lambda>m. (ucast (buffer ! back_index buffer_size pos m) :: i32)"
  have "(\<Sum>j\<leftarrow>[0..<r]. lobe_sum buffer buffer_size pos (c + j) n - lobe_sum buffer buffer_size pos (Suc (c + j)) n)
          = (\<Sum>j\<leftarrow>[0..<r]. ?e (c + j) - ?e (c + n + j))"
    by (simp only: lobe_sum_slide) (simp add: add.assoc add.commute add.left_commute)
  also have "\<dots> = (\<Sum>j\<leftarrow>[0..<r]. ?e (c + j)) - (\<Sum>j\<leftarrow>[0..<r]. ?e (c + n + j))"
    by (rule sum_list_subtractf)
  finally show ?thesis
    by (simp only: lobe_sum_def)
qed

lemma trap_window_sum_slide:
  "trap_window_sum L G R buffer buffer_size pos
     - (\<Sum>j\<leftarrow>[0..<nat R]. lobe_sum buffer buffer_size pos (Suc j) (nat L)
                             - lobe_sum buffer buffer_size pos (Suc (j + nat L + nat G)) (nat L))
   = lobe_sum buffer buffer_size pos 0 (nat R)
     - lobe_sum buffer buffer_size pos (nat L) (nat R)
     - lobe_sum buffer buffer_size pos (nat L + nat G) (nat R)
     + lobe_sum buffer buffer_size pos (nat L + nat G + nat L) (nat R)"
proof -
  let ?l = "nat L" and ?g = "nat G" and ?r = "nat R"
  let ?lobe = "\<lambda>off. lobe_sum buffer buffer_size pos off ?l"
  have "trap_window_sum L G R buffer buffer_size pos
          - (\<Sum>j\<leftarrow>[0..<?r]. ?lobe (Suc j) - ?lobe (Suc (j + ?l + ?g)))
        = (\<Sum>j\<leftarrow>[0..<?r]. (?lobe j - ?lobe (j + ?l + ?g)) - (?lobe (Suc j) - ?lobe (Suc (j + ?l + ?g))))"
    unfolding trap_window_sum_def by (rule sum_list_subtractf [symmetric])
  also have "\<dots> = (\<Sum>j\<leftarrow>[0..<?r]. (?lobe (0 + j) - ?lobe (Suc (0 + j)))
                                  - (?lobe (?l + ?g + j) - ?lobe (Suc (?l + ?g + j))))"
    by (simp add: algebra_simps)
  also have "\<dots> = (\<Sum>j\<leftarrow>[0..<?r]. ?lobe (0 + j) - ?lobe (Suc (0 + j)))
                    - (\<Sum>j\<leftarrow>[0..<?r]. ?lobe (?l + ?g + j) - ?lobe (Suc (?l + ?g + j)))"
    by (rule sum_list_subtractf)
  also have "\<dots> = (lobe_sum buffer buffer_size pos 0 ?r - lobe_sum buffer buffer_size pos (0 + ?l) ?r)
                    - (lobe_sum buffer buffer_size pos (?l + ?g) ?r
                       - lobe_sum buffer buffer_size pos (?l + ?g + ?l) ?r)"
    by (simp only: lobe_sum_slide_sum)
  finally show ?thesis
    by (simp add: algebra_simps)
qed


lemma back_index_other:
  assumes "pos < buffer_size" and "0 < m" and "m < unat buffer_size"
  shows "back_index buffer_size pos m \<noteq> unat pos"
proof
  assume eq: "back_index buffer_size pos m = unat pos"
  have bs: "0 < buffer_size"
    using assms(1) by (simp add: word_less_nat_alt)
  have in_range: "0 \<le> uint pos" "uint pos < uint buffer_size"
    using assms(1) by (simp_all add: word_less_def)
  have "(uint pos - int m) mod uint buffer_size = int (back_index buffer_size pos m)"
    using back_index_uint [OF bs] by simp
  also have "\<dots> = uint pos"
    by (simp only: eq uint_nat [symmetric])
  also have "\<dots> = uint pos mod uint buffer_size"
    using in_range by simp
  finally have "uint buffer_size dvd uint pos - (uint pos - int m)"
    by (metis mod_eq_dvd_iff)
  then have "uint buffer_size dvd int m"
    by simp
  then have "uint buffer_size \<le> int m"
    using assms(2) by (intro zdvd_imp_le) simp_all
  moreover have "int m < uint buffer_size"
    using assms(3) by (simp only: uint_nat of_nat_less_iff)
  ultimately show False
    by simp
qed

lemma lobe_sum_one_write:
  assumes len: "length b = unat buffer_size" and p': "p' < buffer_size"
    and prev: "step_back buffer_size p' = p"
    and upd: "b' = b[unat p' := x]"
    and fits: "off + n < unat buffer_size"
  shows "lobe_sum b buffer_size p off n = lobe_sum b' buffer_size p' (Suc off) n"
proof -
  have p_uint: "uint p = (uint p' - int 1) mod uint buffer_size"
    using step_back_uint [OF p'] prev by simp
  have "ucast (b ! back_index buffer_size p (off + j)) = (ucast (b' ! back_index buffer_size p' (Suc off + j)) :: i32)"
    if "j \<in> set [0..<n]" for j
  proof -
    have idx: "back_index buffer_size p (off + j) = back_index buffer_size p' (Suc off + j)"
      using back_index_shift [OF p_uint, of "off + j"] by simp
    have "Suc off + j < unat buffer_size"
      using that fits by simp
    then have "back_index buffer_size p' (Suc off + j) \<noteq> unat p'"
      using back_index_other [OF p', of "Suc off + j"] by simp
    then show ?thesis
      by (simp add: idx upd)
  qed
  then have "map (\<lambda>j. (ucast (b ! back_index buffer_size p (off + j)) :: i32)) [0..<n]
               = map (\<lambda>j. ucast (b' ! back_index buffer_size p' (Suc off + j))) [0..<n]"
    by (intro map_cong) simp_all
  then show ?thesis
    by (simp only: lobe_sum_def)
qed

lemma trap_window_sum_one_write:
  assumes len: "length b = unat buffer_size" and p': "p' < buffer_size"
    and prev: "step_back buffer_size p' = p"
    and upd: "b' = b[unat p' := x]"
    and fits: "nat L + nat G + nat L + nat R \<le> unat buffer_size"
  shows "trap_window_sum L G R b buffer_size p =
           (\<Sum>j\<leftarrow>[0..<nat R]. lobe_sum b' buffer_size p' (Suc j) (nat L)
                                  - lobe_sum b' buffer_size p' (Suc (j + nat L + nat G)) (nat L))"
proof -
  have "lobe_sum b buffer_size p j (nat L) - lobe_sum b buffer_size p (j + nat L + nat G) (nat L)
          = lobe_sum b' buffer_size p' (Suc j) (nat L)
            - lobe_sum b' buffer_size p' (Suc (j + nat L + nat G)) (nat L)"
    if "j \<in> set [0..<nat R]" for j
  proof -
    have "j + nat L < unat buffer_size" "j + nat L + nat G + nat L < unat buffer_size"
      using that fits by simp_all
    then show ?thesis
      using lobe_sum_one_write [OF len p' prev upd, of j "nat L"]
        lobe_sum_one_write [OF len p' prev upd, of "j + nat L + nat G" "nat L"]
      by simp
  qed
  then have "map (\<lambda>j. lobe_sum b buffer_size p j (nat L) - lobe_sum b buffer_size p (j + nat L + nat G) (nat L))
                 [0..<nat R]
             = map (\<lambda>j. lobe_sum b' buffer_size p' (Suc j) (nat L)
                          - lobe_sum b' buffer_size p' (Suc (j + nat L + nat G)) (nat L)) [0..<nat R]"
    by (intro map_cong) simp_all
  then show ?thesis
    by (simp only: trap_window_sum_def)
qed

lemma trap_brute_force_one_write:
  assumes "1 \<le> R" and "R - 1 \<le> L" and "R - 1 \<le> G"
    and "length b = unat buffer_size" and "p' < buffer_size"
    and "step_back buffer_size p' = p"
    and "b' = b[unat p' := x]"
    and "2 * L + G + R \<le> uint buffer_size"
  shows "trap_brute_force L G R b' buffer_size p' =
           trap_window_sum L G R b' buffer_size p' - trap_window_sum L G R b buffer_size p"
proof -
  have "int (nat L + nat G + nat L + nat R) = 2 * L + G + R"
    using assms(1-3) by simp
  also have "\<dots> \<le> int (unat buffer_size)"
    using assms(8) by (simp only: uint_nat)
  finally have fits: "nat L + nat G + nat L + nat R \<le> unat buffer_size"
    by (simp only: of_nat_le_iff)
  show ?thesis
    by (simp only: trap_brute_force_shape [OF assms(1-3)]
          trap_window_sum_one_write [OF assms(4-7) fits]
          trap_window_sum_slide)
qed


lemma one_write_per_call_sum:
  assumes "1 \<le> R" and "R - 1 \<le> L" and "R - 1 \<le> G"
    and "2 * L + G + R \<le> uint buffer_size"
    and "length b = unat buffer_size"
    and "one_write_per_call buffer_size b p snaps"
  shows "(\<Sum>(b', p')\<leftarrow>snaps. trap_brute_force L G R b' buffer_size p') =
           trap_window_sum L G R (fst (last ((b, p) # snaps))) buffer_size (snd (last ((b, p) # snaps)))
           - trap_window_sum L G R b buffer_size p
       \<and> (\<forall>(b', p') \<in> set snaps. length b' = unat buffer_size \<and> p' < buffer_size)"
  using assms(5,6)
proof (induction snaps arbitrary: b p)
  case Nil
  then show ?case by simp
next
  case (Cons snap snaps)
  obtain b1 p1 where snap: "snap = (b1, p1)"
    by (cases snap)
  have p1: "p1 < buffer_size" and prev: "step_back buffer_size p1 = p"
    and upd: "b1 = b[unat p1 := b1 ! unat p1]"
    and rest: "one_write_per_call buffer_size b1 p1 snaps"
    using Cons.prems(2) by (simp_all add: snap)
  have len1: "length b1 = unat buffer_size"
    using upd Cons.prems(1) by (metis length_list_update)
  have one: "trap_brute_force L G R b1 buffer_size p1 =
               trap_window_sum L G R b1 buffer_size p1 - trap_window_sum L G R b buffer_size p"
    using assms(1-3) Cons.prems(1) p1 prev upd assms(4) by (rule trap_brute_force_one_write)
  have ih: "(\<Sum>(b', p')\<leftarrow>snaps. trap_brute_force L G R b' buffer_size p') =
           trap_window_sum L G R (fst (last ((b1, p1) # snaps))) buffer_size (snd (last ((b1, p1) # snaps)))
           - trap_window_sum L G R b1 buffer_size p1"
    and valid: "\<forall>(b', p') \<in> set snaps. length b' = unat buffer_size \<and> p' < buffer_size"
    using Cons.IH [OF len1 rest] by simp_all
  have "(\<Sum>(b', p')\<leftarrow>snap # snaps. trap_brute_force L G R b' buffer_size p') =
          trap_window_sum L G R (fst (last ((b1, p1) # snaps))) buffer_size (snd (last ((b1, p1) # snaps)))
           - trap_window_sum L G R b buffer_size p"
    by (simp add: snap one ih)
  then show ?case
    using valid len1 p1 by (simp add: snap)
qed

lemma sum_list_all_zero:
  "(\<And>x. x \<in> set xs \<Longrightarrow> f x = (0 :: i32)) \<Longrightarrow> sum_list (map f xs) = 0"
  by (induction xs) simp_all

lemma lobe_sum_zero:
  assumes "length b = unat buffer_size" and "p < buffer_size"
    and "\<forall>i < length b. i \<noteq> unat p \<longrightarrow> b ! i = 0"
    and "0 < off" and "off + n \<le> unat buffer_size"
  shows "lobe_sum b buffer_size p off n = 0"
proof -
  have bs: "0 < buffer_size"
    using assms(2) by (simp add: word_less_nat_alt)
  have "(ucast (b ! back_index buffer_size p (off + j)) :: i32) = 0" if "j \<in> set [0..<n]" for j
  proof -
    have "0 < off + j" "off + j < unat buffer_size"
      using that assms(4,5) by simp_all
    then have "back_index buffer_size p (off + j) \<noteq> unat p"
      by (rule back_index_other [OF assms(2)])
    moreover have "back_index buffer_size p (off + j) < length b"
      using back_index_less [OF bs] assms(1) by simp
    ultimately show ?thesis
      using assms(3) by simp
  qed
  then have "sum_list (map (\<lambda>j. (ucast (b ! back_index buffer_size p (off + j)) :: i32)) [0..<n]) = 0"
    by (rule sum_list_all_zero)
  then show ?thesis
    by (simp only: lobe_sum_def)
qed

lemma lobe_sum_newest_only:
  assumes "length b = unat buffer_size" and "p < buffer_size"
    and "\<forall>i < length b. i \<noteq> unat p \<longrightarrow> b ! i = 0"
    and "0 < n" and "n \<le> unat buffer_size"
  shows "lobe_sum b buffer_size p 0 n = ucast (b ! unat p)"
proof -
  obtain m where n: "n = Suc m"
    using assms(4) by (cases n) simp_all
  have "lobe_sum b buffer_size p (Suc 0) m = 0"
    using assms(1-3) by (rule lobe_sum_zero) (use assms(5) n in simp_all)
  then show ?thesis
    by (simp add: n lobe_sum_front back_index_0 [OF assms(2)])
qed

lemma trap_window_sum_newest_only:
  assumes "1 \<le> R" and "1 \<le> L" and "0 \<le> G"
    and "2 * L + G + R \<le> uint buffer_size"
    and "length b = unat buffer_size" and "p < buffer_size"
    and "\<forall>i < length b. i \<noteq> unat p \<longrightarrow> b ! i = 0"
  shows "trap_window_sum L G R b buffer_size p = ucast (b ! unat p)"
proof -
  let ?l = "nat L" and ?g = "nat G"
  let ?summand = "\<lambda>j. lobe_sum b buffer_size p j ?l - lobe_sum b buffer_size p (j + ?l + ?g) ?l"
  have "int (?l + ?g + ?l + nat R) = 2 * L + G + R"
    using assms(1-3) by simp
  also have "\<dots> \<le> int (unat buffer_size)"
    using assms(4) by (simp only: uint_nat)
  finally have fits: "?l + ?g + ?l + nat R \<le> unat buffer_size"
    by (simp only: of_nat_le_iff)
  have l: "0 < ?l"
    using assms(2) by simp
  obtain r where r: "nat R = Suc r"
    using assms(1) by (cases "nat R") simp_all
  have zero: "lobe_sum b buffer_size p off ?l = 0" if "0 < off" "off + ?l \<le> unat buffer_size" for off
    using assms(5-7) that by (rule lobe_sum_zero)
  have first: "?summand 0 = ucast (b ! unat p)"
  proof -
    have "lobe_sum b buffer_size p 0 ?l = ucast (b ! unat p)"
      using assms(5-7) l by (rule lobe_sum_newest_only) (use fits in simp)
    moreover have "lobe_sum b buffer_size p (0 + ?l + ?g) ?l = 0"
      by (rule zero) (use l fits in simp_all)
    ultimately show ?thesis by simp
  qed
  have later: "?summand j = 0" if "j \<in> set [Suc 0..<Suc r]" for j
  proof -
    have "Suc 0 \<le> j \<and> j < Suc r"
      using that by (simp only: set_upt atLeastLessThan_iff)
    then have j: "0 < j" "j < nat R"
      using r by simp_all
    have "lobe_sum b buffer_size p j ?l = 0"
      by (rule zero) (use j fits in simp_all)
    moreover have "lobe_sum b buffer_size p (j + ?l + ?g) ?l = 0"
      by (rule zero) (use j fits in simp_all)
    ultimately show ?thesis by simp
  qed
  have rest: "(\<Sum>j\<leftarrow>[Suc 0..<Suc r]. ?summand j) = 0"
    using later by (rule sum_list_all_zero)
  have "[0..<Suc r] = 0 # [Suc 0..<Suc r]"
    by (rule upt_conv_Cons) simp
  then have "(\<Sum>j\<leftarrow>[0..<Suc r]. ?summand j) = ?summand 0 + (\<Sum>j\<leftarrow>[Suc 0..<Suc r]. ?summand j)"
    by (simp only: list.map sum_list.Cons)
  then show ?thesis
    unfolding trap_window_sum_def r by (simp only: first rest) simp
qed

text \<open>
  Claim C3, as amended. For a filter with parameters \<open>(R, L, G)\<close>, \<open>1 \<le> R\<close>,
  \<open>R - 1 \<le> L\<close>, \<open>R - 1 \<le> G\<close>, on a buffer of at least \<open>2L + G + R\<close> slots
  that gets one new sample per call, after initialisation, the first call and any
  number of incremental updates, the running value equals, bit for bit, the trapezoid
  recomputed from scratch from the raw contents of the current buffer, plus an offset
  fixed at the first call: the sum of the \<open>R\<close> newest samples then, minus the
  trapezoid recomputed from the buffer then. The offset is zero, and the running
  value is the from-scratch value itself, when \<open>1 \<le> L\<close> and the buffer of the
  first call is zero everywhere but at its newest sample.
\<close>

theorem trap_filter_incremental:
  assumes "1 \<le> R" and "R - 1 \<le> L" and "R - 1 \<le> G" and "G < 2 ^ 31"
    and "2 * L + G + R \<le> uint buffer_size"
    and "length b0 = unat buffer_size" and "p0 < buffer_size"
    and "one_write_per_call buffer_size b0 p0 snaps"
  shows "\<exists>flt'. trap_filter_steps L G R (trap_filter_init flt) buffer_size ((b0, p0) # snaps) = Inr flt'
           \<and> filter_value flt' =
               trap_window_sum L G R (fst (last ((b0, p0) # snaps))) buffer_size (snd (last ((b0, p0) # snaps)))
               + ((\<Sum>j\<leftarrow>[0..<nat R]. ucast (b0 ! back_index buffer_size p0 j))
                  - trap_window_sum L G R b0 buffer_size p0)
           \<and> (1 \<le> L \<and> (\<forall>i < length b0. i \<noteq> unat p0 \<longrightarrow> b0 ! i = 0) \<longrightarrow>
                filter_value flt' =
                  trap_window_sum L G R (fst (last ((b0, p0) # snaps))) buffer_size
                    (snd (last ((b0, p0) # snaps))))"
proof -
  have bs: "uint buffer_size < 4294967296"
    using uint_lt2p [of buffer_size] by simp
  have range: "L < 2147483648" "G < 2147483648" "R < 2147483648"
    using assms(1-5) bs by simp_all
  have c: "c_int R = R"
    using assms(1) range(3) by (simp add: c_int_id)
  have r: "Suc (nat (R - 1)) = nat R"
    using assms(1) by simp
  let ?s = "lobe_sum b0 buffer_size p0 0 (nat R)"
  let ?last = "trap_window_sum L G R (fst (last ((b0, p0) # snaps))) buffer_size (snd (last ((b0, p0) # snaps)))"
  let ?flt = "(trap_filter_init flt)\<lparr> buffer_pos := p0, initialized := True, filter_value := ?s \<rparr>"
  have fresh: "\<not> initialized (trap_filter_init flt)"
    by (simp add: trap_filter_init_def)
  have first: "trap_filter_step L G R (trap_filter_init flt) b0 buffer_size p0 = Inr (?flt, ?s)"
    using trap_filter_step_first [OF assms(6,7) fresh, of L G R] by (simp only: c r)
  have sum: "(\<Sum>(b', p')\<leftarrow>snaps. trap_brute_force L G R b' buffer_size p') =
               ?last - trap_window_sum L G R b0 buffer_size p0"
    and valid: "\<forall>(b', p') \<in> set snaps. length b' = unat buffer_size \<and> p' < buffer_size"
    using one_write_per_call_sum [OF assms(1-3) assms(5,6,8)] by simp_all
  have "initialized ?flt"
    by simp
  then obtain flt' where
    rest: "trap_filter_steps L G R ?flt buffer_size snaps = Inr flt'"
    and val: "filter_value flt' =
                filter_value ?flt + (\<Sum>(b, p)\<leftarrow>snaps. trap_brute_force L G R b buffer_size p)"
    using trap_filter_steps_updates [OF assms(1-3) range _ valid, of ?flt] by blast
  have total: "filter_value flt' = ?last + (?s - trap_window_sum L G R b0 buffer_size p0)"
    by (simp only: val sum) simp
  have run: "trap_filter_steps L G R (trap_filter_init flt) buffer_size ((b0, p0) # snaps) = Inr flt'"
    using first rest by simp
  have start: "filter_value flt' = ?last"
    if "1 \<le> L \<and> (\<forall>i < length b0. i \<noteq> unat p0 \<longrightarrow> b0 ! i = 0)"
  proof -
    have only: "\<forall>i < length b0. i \<noteq> unat p0 \<longrightarrow> b0 ! i = 0" and L: "1 \<le> L"
      using that by simp_all
    have G: "0 \<le> G"
      using assms(1,3) by simp
    have "int (nat R) \<le> int (unat buffer_size)"
      using assms(1-5) G by (simp add: uint_nat [symmetric])
    then have fits: "nat R \<le> unat buffer_size"
      by (simp only: of_nat_le_iff)
    have "?s = ucast (b0 ! unat p0)"
      using assms(6,7) only by (rule lobe_sum_newest_only) (use assms(1) fits in simp_all)
    moreover have "trap_window_sum L G R b0 buffer_size p0 = ucast (b0 ! unat p0)"
      using assms(1) L G assms(5,6,7) only by (rule trap_window_sum_newest_only)
    ultimately show ?thesis
      using total by simp
  qed
  show ?thesis
    using run total start unfolding lobe_sum_def by (intro exI [of _ flt']) simp
qed

theorem trap_filter_incremental_witness:
  "(1 :: int) \<le> 2 \<and> (2 :: int) - 1 \<le> 4 \<and> (2 :: int) - 1 \<le> 2 \<and> (2 :: int) < 2 ^ 31
   \<and> (2 :: int) * 4 + 2 + 2 \<le> uint (16 :: size_t)
   \<and> length [3, 1, 4, 1, 5, 9, 2, 6, 5, 3, 5, 8, 9, 7, 9, 3 :: u16] = unat (16 :: size_t)
   \<and> (12 :: size_t) < 16
   \<and> one_write_per_call 16 [3, 1, 4, 1, 5, 9, 2, 6, 5, 3, 5, 8, 9, 7, 9, 3] 12
        [([3, 1, 4, 1, 5, 9, 2, 6, 5, 3, 5, 8, 9, 2, 9, 3], 13),
         ([3, 1, 4, 1, 5, 9, 2, 6, 5, 3, 5, 8, 9, 2, 8, 3], 14)]
   \<and> (\<exists>flt'. trap_filter_steps 4 2 2
                 (trap_filter_init \<lparr> filter_value = 77, buffer_pos = 5, samples_processed = 9, initialized = True \<rparr>)
                 16 [([3, 1, 4, 1, 5, 9, 2, 6, 5, 3, 5, 8, 9, 7, 9, 3], 12),
                     ([3, 1, 4, 1, 5, 9, 2, 6, 5, 3, 5, 8, 9, 2, 9, 3], 13),
                     ([3, 1, 4, 1, 5, 9, 2, 6, 5, 3, 5, 8, 9, 2, 8, 3], 14)] = Inr flt'
         \<and> filter_value flt' = 7 + (17 - 10))
   \<and> trap_window_sum 4 2 2 [3, 1, 4, 1, 5, 9, 2, 6, 5, 3, 5, 8, 9, 2, 8, 3] 16 14 = 7
   \<and> trap_window_sum 4 2 2 [3, 1, 4, 1, 5, 9, 2, 6, 5, 3, 5, 8, 9, 7, 9, 3] 16 12 = 10
   \<and> length [0, 0, 0, 0, 0, 0, 0, 0, 0, 0, 0, 0, 3, 0, 0, 0 :: u16] = unat (16 :: size_t)
   \<and> one_write_per_call 16 [0, 0, 0, 0, 0, 0, 0, 0, 0, 0, 0, 0, 3, 0, 0, 0] 12
        [([0, 0, 0, 0, 0, 0, 0, 0, 0, 0, 0, 0, 3, 2, 0, 0], 13),
         ([0, 0, 0, 0, 0, 0, 0, 0, 0, 0, 0, 0, 3, 2, 8, 0], 14)]
   \<and> (1 :: int) \<le> 4
   \<and> (\<exists>flt'. trap_filter_steps 4 2 2
                 (trap_filter_init \<lparr> filter_value = 77, buffer_pos = 5, samples_processed = 9, initialized = True \<rparr>)
                 16 [([0, 0, 0, 0, 0, 0, 0, 0, 0, 0, 0, 0, 3, 0, 0, 0], 12),
                     ([0, 0, 0, 0, 0, 0, 0, 0, 0, 0, 0, 0, 3, 2, 0, 0], 13),
                     ([0, 0, 0, 0, 0, 0, 0, 0, 0, 0, 0, 0, 3, 2, 8, 0], 14)] = Inr flt'
         \<and> filter_value flt' = 18)
   \<and> trap_window_sum 4 2 2 [0, 0, 0, 0, 0, 0, 0, 0, 0, 0, 0, 0, 3, 2, 8, 0] 16 14 = 18"
proof -
  let ?w0 = "[3, 1, 4, 1, 5, 9, 2, 6, 5, 3, 5, 8, 9, 7, 9, 3 :: u16]"
  let ?w1 = "[3, 1, 4, 1, 5, 9, 2, 6, 5, 3, 5, 8, 9, 2, 9, 3 :: u16]"
  let ?w2 = "[3, 1, 4, 1, 5, 9, 2, 6, 5, 3, 5, 8, 9, 2, 8, 3 :: u16]"
  let ?z0 = "[0, 0, 0, 0, 0, 0, 0, 0, 0, 0, 0, 0, 3, 0, 0, 0 :: u16]"
  let ?z1 = "[0, 0, 0, 0, 0, 0, 0, 0, 0, 0, 0, 0, 3, 2, 0, 0 :: u16]"
  let ?z2 = "[0, 0, 0, 0, 0, 0, 0, 0, 0, 0, 0, 0, 3, 2, 8, 0 :: u16]"
  let ?old = "\<lparr> filter_value = 77, buffer_pos = 5, samples_processed = 9, initialized = True \<rparr>"
  have h: "(1 :: int) \<le> 2" "(2 :: int) - 1 \<le> 4" "(2 :: int) - 1 \<le> 2" "(2 :: int) < 2 ^ 31"
    "(2 :: int) * 4 + 2 + 2 \<le> uint (16 :: size_t)"
    by simp_all
  have len: "length ?w0 = unat (16 :: size_t)" "length ?z0 = unat (16 :: size_t)"
    by simp_all
  have pos: "(12 :: size_t) < 16"
    by simp
  have warm: "one_write_per_call 16 ?w0 12 [(?w1, 13), (?w2, 14)]"
    by (simp add: step_back_def)
  have cold: "one_write_per_call 16 ?z0 12 [(?z1, 13), (?z2, 14)]"
    by (simp add: step_back_def)
  have L: "(1 :: int) \<le> 4"
    by simp
  have two: "[0..<2] = [0, 1 :: nat]" and four: "[0..<4] = [0, 1, 2, 3 :: nat]"
    by (simp_all add: upt_rec)
  have first: "(\<Sum>j\<leftarrow>[0..<nat 2]. ucast (?w0 ! back_index 16 12 j)) = (17 :: i32)"
    by (simp add: two back_index_def)
  have w0: "trap_window_sum 4 2 2 ?w0 16 12 = 10"
    by (simp add: trap_window_sum_def lobe_sum_def two four back_index_def)
  have w2: "trap_window_sum 4 2 2 ?w2 16 14 = 7"
    by (simp add: trap_window_sum_def lobe_sum_def two four back_index_def)
  have z2: "trap_window_sum 4 2 2 ?z2 16 14 = 18"
    by (simp add: trap_window_sum_def lobe_sum_def two four back_index_def)
  have only: "\<forall>i < length ?z0. i \<noteq> unat (12 :: size_t) \<longrightarrow> ?z0 ! i = 0"
  proof (intro allI impI)
    fix i :: nat
    assume "i < length ?z0" and "i \<noteq> unat (12 :: size_t)"
    then have "i < 16" and "i \<noteq> 12"
      by simp_all
    then have "i = 0 \<or> i = 1 \<or> i = 2 \<or> i = 3 \<or> i = 4 \<or> i = 5 \<or> i = 6 \<or> i = 7 \<or> i = 8
                \<or> i = 9 \<or> i = 10 \<or> i = 11 \<or> i = 13 \<or> i = 14 \<or> i = 15"
      by arith
    then show "?z0 ! i = 0"
      by (elim disjE) simp_all
  qed
  have lasts: "last [(?w0, 12 :: size_t), (?w1, 13), (?w2, 14)] = (?w2, 14)"
    "last [(?z0, 12 :: size_t), (?z1, 13), (?z2, 14)] = (?z2, 14)"
    by simp_all
  obtain fw where
    run_w: "trap_filter_steps 4 2 2 (trap_filter_init ?old) 16 [(?w0, 12), (?w1, 13), (?w2, 14)] = Inr fw"
    and val_w: "filter_value fw =
        trap_window_sum 4 2 2 (fst (last [(?w0, 12 :: size_t), (?w1, 13), (?w2, 14)])) 16
          (snd (last [(?w0, 12 :: size_t), (?w1, 13), (?w2, 14)]))
        + ((\<Sum>j\<leftarrow>[0..<nat 2]. ucast (?w0 ! back_index 16 12 j)) - trap_window_sum 4 2 2 ?w0 16 12)"
    using trap_filter_incremental [OF h len(1) pos warm, of ?old] by blast
  obtain fz where
    run_z: "trap_filter_steps 4 2 2 (trap_filter_init ?old) 16 [(?z0, 12), (?z1, 13), (?z2, 14)] = Inr fz"
    and val_z: "1 \<le> (4 :: int) \<and> (\<forall>i < length ?z0. i \<noteq> unat (12 :: size_t) \<longrightarrow> ?z0 ! i = 0) \<longrightarrow>
        filter_value fz =
          trap_window_sum 4 2 2 (fst (last [(?z0, 12 :: size_t), (?z1, 13), (?z2, 14)])) 16
            (snd (last [(?z0, 12 :: size_t), (?z1, 13), (?z2, 14)]))"
    using trap_filter_incremental [OF h len(2) pos cold, of ?old] by blast
  have "filter_value fw = 7 + (17 - 10)"
    using val_w by (simp only: lasts fst_conv snd_conv first w0 w2)
  moreover have "filter_value fz = 18"
    using val_z L only by (simp only: lasts fst_conv snd_conv z2)
  ultimately show ?thesis
    using h len pos warm cold L run_w run_z w0 w2 z2 by blast
qed

text \<open>
  Claim C3 as stated fails: with \<open>R = 2\<close>, \<open>L = 4\<close>, \<open>G = 2\<close> on a buffer
  of sixteen samples, all \<open>5\<close>, the running value after the first call and one
  update is \<open>10\<close>, while the brute-force recomputation gives \<open>0\<close>, both as the
  four-term combination and as the trapezoid over the whole window.
\<close>

theorem trap_filter_offset_counterexample:
  "trap_filter_steps 4 2 2
     (trap_filter_init \<lparr> filter_value = 0, buffer_pos = 0, samples_processed = 0, initialized = False \<rparr>)
     16 [(replicate 16 5, 0), (replicate 16 5, 1)]
     = Inr \<lparr> filter_value = 10, buffer_pos = 1, samples_processed = 1, initialized = True \<rparr>
   \<and> trap_brute_force 4 2 2 (replicate 16 5) 16 1 = 0
   \<and> trap_window_sum 4 2 2 (replicate 16 5) 16 1 = 0"
proof -
  let ?buf = "replicate 16 (5 :: u16)"
  let ?f0 = "trap_filter_init \<lparr> filter_value = 0, buffer_pos = 0, samples_processed = 0, initialized = False \<rparr>"
  let ?f1 = "\<lparr> filter_value = 10, buffer_pos = 0, samples_processed = 0, initialized = True \<rparr>"
  have lobe: "lobe_sum ?buf 16 pos off r = of_nat r * 5" for pos off r
    using lobe_sum_replicate [of 16 5 pos off r] by simp
  have bf: "trap_brute_force 4 2 2 ?buf 16 1 = 0"
    by (simp add: trap_brute_force_def lobe)
  have win: "trap_window_sum 4 2 2 ?buf 16 1 = 0"
    by (simp add: trap_window_sum_def lobe)
  have len: "length ?buf = unat (16 :: size_t)"
    by simp
  have "\<not> initialized ?f0"
    by (simp add: trap_filter_init_def)
  then have first: "trap_filter_step 4 2 2 ?f0 ?buf 16 0 = Inr (?f1, 10)"
    using trap_filter_step_first [of ?buf 16 0 ?f0 4 2 2]
    by (simp add: lobe trap_filter_init_def c_int_def)
  have shape: "(1 :: int) \<le> 2" "(2 :: int) - 1 \<le> 4" "(2 :: int) - 1 \<le> 2"
    "(4 :: int) < 2147483648" "(2 :: int) < 2147483648" "(2 :: int) < 2147483648"
    by simp_all
  have "(1 :: size_t) < 16" and "initialized ?f1"
    by simp_all
  then have second: "trap_filter_step 4 2 2 ?f1 ?buf 16 1 =
      Inr (\<lparr> filter_value = 10, buffer_pos = 1, samples_processed = 1, initialized = True \<rparr>, 10)"
    using trap_filter_step_brute_force [OF shape len, of 1 ?f1]
    by (simp add: bf)
  show ?thesis
    using first second bf win by simp
qed

lemma trap_filter_step_total:
  assumes "length buffer = unat buffer_size" and "pos < buffer_size"
  shows "\<exists>flt' v. trap_filter_step L G R flt buffer buffer_size pos = Inr (flt', v)"
proof (cases "initialized flt")
  case True
  show ?thesis
    unfolding trap_filter_step_update [OF assms True] Let_def by blast
next
  case False
  show ?thesis
    unfolding trap_filter_step_first [OF assms False] by blast
qed

text \<open>
  Claim C6, as amended. Constructing a filter never produces an error: the shape is
  fixed by macros, \<open>trap_filter_init\<close> only zeroes the state, and nothing compares
  \<open>L\<close> with \<open>R\<close> or \<open>2L + G + 2R\<close> with the capacity. For any \<open>L\<close>,
  \<open>G\<close>, \<open>R\<close> and any buffer with a position inside it, the first call and the
  calls after it return a value, their walks wrapping around the buffer.
\<close>

theorem trap_filter_init_unchecked:
  assumes "length buffer = unat buffer_size" and "pos < buffer_size" and "pos2 < buffer_size"
  shows "trap_filter_init flt =
           \<lparr> filter_value = 0, buffer_pos = 0, samples_processed = 0, initialized = False \<rparr>
       \<and> (\<exists>flt1 v1. trap_filter_step L G R (trap_filter_init flt) buffer buffer_size pos = Inr (flt1, v1)
             \<and> (\<exists>flt2 v2. trap_filter_step L G R flt1 buffer buffer_size pos2 = Inr (flt2, v2)))"
proof
  show "trap_filter_init flt =
          \<lparr> filter_value = 0, buffer_pos = 0, samples_processed = 0, initialized = False \<rparr>"
    by (simp add: trap_filter_init_def)
next
  obtain flt1 v1 where
    one: "trap_filter_step L G R (trap_filter_init flt) buffer buffer_size pos = Inr (flt1, v1)"
    using trap_filter_step_total [OF assms(1,2)] by blast
  obtain flt2 v2 where "trap_filter_step L G R flt1 buffer buffer_size pos2 = Inr (flt2, v2)"
    using trap_filter_step_total [OF assms(1,3)] by blast
  with one show "\<exists>flt1 v1. trap_filter_step L G R (trap_filter_init flt) buffer buffer_size pos = Inr (flt1, v1)
             \<and> (\<exists>flt2 v2. trap_filter_step L G R flt1 buffer buffer_size pos2 = Inr (flt2, v2))"
    by blast
qed

theorem trap_filter_init_unchecked_witness:
  "length [1, 2, 3, 4 :: u16] = unat (4 :: size_t) \<and> (0 :: size_t) < 4 \<and> (1 :: size_t) < 4
   \<and> trap_filter_init \<lparr> filter_value = 7, buffer_pos = 3, samples_processed = 2, initialized = True \<rparr> =
           \<lparr> filter_value = 0, buffer_pos = 0, samples_processed = 0, initialized = False \<rparr>
   \<and> (\<exists>flt1 v1. trap_filter_step 2 0 8
                    (trap_filter_init \<lparr> filter_value = 7, buffer_pos = 3, samples_processed = 2, initialized = True \<rparr>)
                    [1, 2, 3, 4] 4 0 = Inr (flt1, v1)
             \<and> (\<exists>flt2 v2. trap_filter_step 2 0 8 flt1 [1, 2, 3, 4] 4 1 = Inr (flt2, v2)))"
proof -
  have h: "length [1, 2, 3, 4 :: u16] = unat (4 :: size_t)" "(0 :: size_t) < 4" "(1 :: size_t) < 4"
    by simp_all
  show ?thesis
    using trap_filter_init_unchecked [OF h, of _ 2 0 8] h by blast
qed

text \<open>
  Claim C6 as stated fails: with \<open>L = 2 < R = 8\<close> and a buffer of four samples,
  fewer than \<open>2L + G + 2R = 20\<close>, initialisation and the first call report no
  error; the walk goes twice around the buffer.
\<close>

theorem trap_filter_config_counterexample:
  "(2 :: int) < 8 \<and> int (length [1, 2, 3, 4 :: u16]) < 2 * 2 + 0 + 2 * 8
   \<and> trap_filter_step 2 0 8
        (trap_filter_init \<lparr> filter_value = 0, buffer_pos = 0, samples_processed = 0, initialized = False \<rparr>)
        [1, 2, 3, 4] 4 0
       = Inr (\<lparr> filter_value = 20, buffer_pos = 0, samples_processed = 0, initialized = True \<rparr>, 20)"
proof -
  let ?f0 = "trap_filter_init \<lparr> filter_value = 0, buffer_pos = 0, samples_processed = 0, initialized = False \<rparr>"
  have "[0..<8] = [0, 1, 2, 3, 4, 5, 6, 7 :: nat]"
    by (simp add: upt_rec)
  then have lobe: "lobe_sum [1, 2, 3, 4] 4 0 0 8 = 20"
    by (simp add: lobe_sum_def back_index_def)
  have "\<not> initialized ?f0"
    by (simp add: trap_filter_init_def)
  then have "trap_filter_step 2 0 8 ?f0 [1, 2, 3, 4] 4 0 =
      Inr (?f0\<lparr> buffer_pos := 0, initialized := True, filter_value := lobe_sum [1, 2, 3, 4] 4 0 0 (Suc (nat (c_int 8 - 1))) \<rparr>,
           lobe_sum [1, 2, 3, 4] 4 0 0 (Suc (nat (c_int 8 - 1))))"
    by (intro trap_filter_step_first) simp_all
  then show ?thesis
    by (simp add: lobe trap_filter_init_def c_int_def)
qed

lemma sint_effective_length:
  assumes "0 < L" and "0 < R" and "2 * L * R < 2 ^ 31"
  shows "sint (word_of_int (2 * L * R) :: i32) = 2 * L * R"
proof -
  have "0 < 2 * L * R"
    using assms(1,2) by simp
  then show ?thesis
    using assms(3) by (intro sint_i32_of_int) simp_all
qed

text \<open>
  Claim C8. For every filter state, the normalised output is the running value
  divided by the effective length \<open>2 \<cdot> L \<cdot> R\<close>, by the integer division of C,
  which truncates towards zero; the filter state, the running value with it, is
  returned unchanged. The effective length is positive and fits \<^verbatim>\<open>int32_t\<close>.
\<close>

theorem trap_filter_get_normalized_value:
  assumes "0 < L" and "0 < R" and "2 * L * R < 2 ^ 31"
  shows "\<exists>q. trap_filter_get_normalized L R flt = Inr (flt, q)
           \<and> sint q = sgn (sint (filter_value flt)) * (\<bar>sint (filter_value flt)\<bar> div (2 * L * R))"
proof -
  let ?d = "2 * L * R" and ?v = "sint (filter_value flt)"
  have d_pos: "0 < ?d"
    using assms(1,2) by simp
  have d: "sint (word_of_int ?d :: i32) = ?d"
    using assms by (rule sint_effective_length)
  then have nonzero: "(word_of_int ?d :: i32) \<noteq> 0"
    using d_pos by auto
  have quot: "?v sdiv ?d = sgn ?v * (\<bar>?v\<bar> div ?d)"
    using d_pos by (simp add: signed_divide_int_def)
  have v_range: "- 2147483648 \<le> ?v" "?v < 2147483648"
    using sint_ge [of "filter_value flt"] sint_lt [of "filter_value flt"] by simp_all
  have "\<bar>?v\<bar> div ?d \<le> \<bar>?v\<bar> div 1"
    using d_pos by (intro zdiv_mono2) simp_all
  then have "\<bar>?v\<bar> div ?d \<le> \<bar>?v\<bar>"
    by simp
  moreover have "0 \<le> \<bar>?v\<bar> div ?d"
    using d_pos by (simp add: pos_imp_zdiv_nonneg_iff)
  ultimately have "- 2147483648 \<le> sgn ?v * (\<bar>?v\<bar> div ?d)" "sgn ?v * (\<bar>?v\<bar> div ?d) < 2147483648"
    using v_range by (auto simp: sgn_if)
  then have val: "sint (word_of_int (sgn ?v * (\<bar>?v\<bar> div ?d)) :: i32) = sgn ?v * (\<bar>?v\<bar> div ?d)"
    by (rule sint_i32_of_int)
  have "trap_filter_get_normalized L R flt =
          Inr (flt, word_of_int (?v sdiv sint (word_of_int ?d :: i32)))"
    unfolding trap_filter_get_normalized_def Let_def using nonzero by (simp only: if_False)
  then have "trap_filter_get_normalized L R flt = Inr (flt, word_of_int (sgn ?v * (\<bar>?v\<bar> div ?d)))"
    by (simp only: d quot)
  with val show ?thesis
    by blast
qed

theorem trap_filter_get_normalized_value_witness:
  "(0 :: int) < 64 \<and> (0 :: int) < 8 \<and> (2 :: int) * 64 * 8 < 2 ^ 31
   \<and> trap_filter_get_normalized TRAP_FILTER_LENGTH TRAP_FILTER_RATE
        \<lparr> filter_value = - 2049, buffer_pos = 3, samples_processed = 5, initialized = True \<rparr>
      = Inr (\<lparr> filter_value = - 2049, buffer_pos = 3, samples_processed = 5, initialized = True \<rparr>, - 2)"
proof -
  let ?flt = "\<lparr> filter_value = - 2049 :: i32, buffer_pos = 3 :: size_t, samples_processed = 5 :: size_t,
               initialized = True \<rparr>"
  have h: "(0 :: int) < 64" "(0 :: int) < 8" "(2 :: int) * 64 * 8 < 2 ^ 31"
    by simp_all
  obtain q where run: "trap_filter_get_normalized TRAP_FILTER_LENGTH TRAP_FILTER_RATE ?flt = Inr (?flt, q)"
    and val: "sint q = sgn (sint (filter_value ?flt)) * (\<bar>sint (filter_value ?flt)\<bar> div (2 * 64 * 8))"
    using trap_filter_get_normalized_value [OF h]
    unfolding TRAP_FILTER_LENGTH_def TRAP_FILTER_RATE_def by blast
  have "sint q = sint (- 2 :: i32)"
    using val by simp
  then have "q = - 2"
    by (simp only: word_eq_iff_signed [symmetric])
  with run h show ?thesis
    by simp
qed

end
